theory Spec2Isabelle
  imports Main "HOL-Library.Sublist" "HOL-Library.Product_Lexorder" "HOL-Library.Multiset"
begin

section \<open>Text generation and summarisation services (services/text\_generation.py)\<close>

text \<open>
  A shallow embedding of the two service classes of \<^verbatim>\<open>services/text_generation.py\<close>:
  \<^verbatim>\<open>TextSummarizer\<close> and \<^verbatim>\<open>MarkovChainGenerator\<close>.

  Python strings are lists of \<^typ>\<open>char\<close>. A \<^typ>\<open>char\<close> has eight bits and is read
  as the Unicode code point of the same number (0 to 255, the Latin-1 range); the
  character classes below are the ones Python's \<^verbatim>\<open>str\<close> methods and the \<^verbatim>\<open>re\<close> module
  use on that range. Capitalising a word can leave the range, so the strings that
  \<^verbatim>\<open>generate\<close> returns have a type of their own, \<open>ustring\<close>, with the two code points
  that can appear beyond it. Python integers are \<^typ>\<open>int\<close>.
\<close>

subsection \<open>Characters\<close>

definition code :: "char \<Rightarrow> nat" where
  "code c = of_char c"

text \<open>\<^verbatim>\<open>str.isspace\<close>, which is also the class \<^verbatim>\<open>\s\<close> of a \<^verbatim>\<open>str\<close> pattern and the
  set of characters \<^verbatim>\<open>str.strip()\<close> removes: TAB, LF, VT, FF, CR, the separators
  0x1C to 0x1F, the space, NEL (0x85) and the no-break space (0xA0).\<close>

definition isspace :: "char \<Rightarrow> bool" where
  "isspace c =
     (let n = code c
      in (9 \<le> n \<and> n \<le> 13) \<or> (28 \<le> n \<and> n \<le> 32) \<or> n = 133 \<or> n = 160)"

text \<open>The class \<^verbatim>\<open>\w\<close> of a \<^verbatim>\<open>str\<close> pattern: the underscore and every character that
  \<^verbatim>\<open>str.isalnum\<close> accepts (digits, letters, and in the upper half the ordinal
  indicators, the micro sign, the superscript digits and the vulgar fractions).\<close>

definition is_word_char :: "char \<Rightarrow> bool" where
  "is_word_char c =
     (let n = code c
      in (48 \<le> n \<and> n \<le> 57) \<or> (65 \<le> n \<and> n \<le> 90) \<or> n = 95 \<or> (97 \<le> n \<and> n \<le> 122)
         \<or> n = 170 \<or> n = 178 \<or> n = 179 \<or> n = 181 \<or> n = 185 \<or> n = 186
         \<or> (188 \<le> n \<and> n \<le> 190) \<or> (192 \<le> n \<and> n \<le> 214)
         \<or> (216 \<le> n \<and> n \<le> 246) \<or> (248 \<le> n \<and> n \<le> 255))"

text \<open>\<^verbatim>\<open>str.isupper\<close> on a single character: the uppercase letters.\<close>

definition isupper :: "char \<Rightarrow> bool" where
  "isupper c =
     (let n = code c
      in (65 \<le> n \<and> n \<le> 90) \<or> (192 \<le> n \<and> n \<le> 214) \<or> (216 \<le> n \<and> n \<le> 222))"

text \<open>\<^verbatim>\<open>str.lower\<close> on a single character.\<close>

definition lower_char :: "char \<Rightarrow> char" where
  "lower_char c = (if isupper c then char_of (code c + 32) else c)"

definition lower :: "string \<Rightarrow> string" where
  "lower s = map lower_char s"

text \<open>\<^verbatim>\<open>str.capitalize\<close> does not stay in the range: the uppercase form of the micro sign
  (code 181) is U+039C, the Greek capital letter mu, and the one of y with diaeresis
  (code 255) is U+0178. The strings \<^verbatim>\<open>generate\<close> returns are therefore lists of code
  points of the range or one of these two.\<close>

datatype codepoint = Latin1 char | Capital_Mu | Capital_Y_Diaeresis

type_synonym ustring = "codepoint list"

definition str :: "string \<Rightarrow> ustring" where
  "str s = map Latin1 s"

text \<open>\<^verbatim>\<open>str.isupper\<close> on a code point of a returned string: both code points outside the
  range are uppercase letters.\<close>

fun isupper_u :: "codepoint \<Rightarrow> bool" where
  "isupper_u (Latin1 c) = isupper c"
| "isupper_u Capital_Mu = True"
| "isupper_u Capital_Y_Diaeresis = True"

text \<open>The title case of a character, which \<^verbatim>\<open>str.capitalize\<close> (Python 3.8 and later) gives
  to the first character: a lowercase letter with an uppercase form in the range moves
  to it, the sharp s (code 223) becomes the two letters \<open>Ss\<close>, the micro sign and y with
  diaeresis leave the range, and every other character stays.\<close>

definition title :: "char \<Rightarrow> ustring" where
  "title c =
     (let n = code c
      in if (97 \<le> n \<and> n \<le> 122) \<or> (224 \<le> n \<and> n \<le> 246) \<or> (248 \<le> n \<and> n \<le> 254)
         then [Latin1 (char_of (n - 32))]
         else if n = 223 then [Latin1 CHR ''S'', Latin1 CHR ''s'']
         else if n = 181 then [Capital_Mu]
         else if n = 255 then [Capital_Y_Diaeresis]
         else [Latin1 c])"

text \<open>\<^verbatim>\<open>str.capitalize\<close>: the first character in title case, the rest lowercased.\<close>

fun capitalize :: "string \<Rightarrow> ustring" where
  "capitalize [] = []"
| "capitalize (c # cs) = title c @ str (lower cs)"

text \<open>\<^verbatim>\<open>str.strip()\<close>: whitespace removed at both ends.\<close>

definition strip :: "string \<Rightarrow> string" where
  "strip s = rev (dropWhile isspace (rev (dropWhile isspace s)))"

text \<open>\<^verbatim>\<open>" ".join(xs)\<close>.\<close>

fun join_space :: "string list \<Rightarrow> string" where
  "join_space [] = []"
| "join_space [x] = x"
| "join_space (x # y # ys) = x @ CHR '' '' # join_space (y # ys)"

text \<open>The same join on the strings \<^verbatim>\<open>generate\<close> returns.\<close>

fun join_space_u :: "ustring list \<Rightarrow> ustring" where
  "join_space_u [] = []"
| "join_space_u [x] = x"
| "join_space_u (x # y # ys) = x @ Latin1 CHR '' '' # join_space_u (y # ys)"

text \<open>The number of words of a returned string: the length of \<^verbatim>\<open>text.split()\<close>, whose
  pieces are the maximal runs of characters that are not whitespace. Neither of the two
  code points outside the range is whitespace. \<open>cur\<close> is the run being read, reversed.\<close>

fun isspace_u :: "codepoint \<Rightarrow> bool" where
  "isspace_u (Latin1 c) = isspace c"
| "isspace_u Capital_Mu = False"
| "isspace_u Capital_Y_Diaeresis = False"

fun split_words :: "ustring \<Rightarrow> ustring \<Rightarrow> ustring list" where
  "split_words cur [] = (if cur = [] then [] else [rev cur])"
| "split_words cur (c # cs) =
     (if isspace_u c then
        (if cur = [] then split_words [] cs else rev cur # split_words [] cs)
      else split_words (c # cur) cs)"

definition word_count :: "ustring \<Rightarrow> nat" where
  "word_count text = length (split_words [] text)"

subsection \<open>The two regular expressions\<close>

text \<open>\<^verbatim>\<open>re.findall(r"\b\w+\b", s)\<close>: the maximal runs of word characters of \<open>s\<close>, from left
  to right. \<open>cur\<close> is the run being read, reversed.\<close>

fun findall_words :: "string \<Rightarrow> string \<Rightarrow> string list" where
  "findall_words cur [] = (if cur = [] then [] else [rev cur])"
| "findall_words cur (c # cs) =
     (if is_word_char c then findall_words (c # cur) cs
      else if cur = [] then findall_words [] cs
      else rev cur # findall_words [] cs)"

definition is_terminator :: "char \<Rightarrow> bool" where
  "is_terminator c = (c = CHR ''.'' \<or> c = CHR ''!'' \<or> c = CHR ''?'')"

text \<open>\<^verbatim>\<open>re.split(r"(?<=[.!?])\s+", s)\<close>: a separator is a maximal run of whitespace that
  stands right after a terminator. \<open>cur\<close> is the piece being read, reversed; the last
  piece is returned also when it is empty, as \<^verbatim>\<open>re.split\<close> does.\<close>

function split_sentences :: "string \<Rightarrow> string \<Rightarrow> string list" where
  "split_sentences cur [] = [rev cur]"
| "split_sentences cur (c # cs) =
     (if is_terminator c \<and> cs \<noteq> [] \<and> isspace (hd cs)
      then rev (c # cur) # split_sentences [] (dropWhile isspace cs)
      else split_sentences (c # cur) cs)"
  by pat_completeness auto
termination
  by (relation "measure (\<lambda>(cur, s). length s)")
     (auto simp: le_imp_less_Suc length_dropWhile_le)

subsection \<open>TextSummarizer\<close>

record TextSummarizer =
  stopwords :: "string set"

definition default_stopwords :: "string set" where
  "default_stopwords =
     {''a'', ''about'', ''above'', ''after'', ''again'', ''against'', ''all'', ''am'', ''an'',
      ''and'', ''any'', ''are'', ''as'', ''at'', ''be'', ''because'', ''been'', ''before'',
      ''being'', ''below'', ''between'', ''both'', ''but'', ''by'', ''could'', ''did'', ''do'',
      ''does'', ''doing'', ''down'', ''during'', ''each'', ''few'', ''for'', ''from'',
      ''further'', ''had'', ''has'', ''have'', ''having'', ''he'', ''her'', ''here'', ''hers'',
      ''herself'', ''him'', ''himself'', ''his'', ''how'', ''i'', ''if'', ''in'', ''into'',
      ''is'', ''it'', ''its'', ''itself'', ''just'', ''me'', ''more'', ''most'', ''my'',
      ''myself'', ''no'', ''nor'', ''not'', ''now'', ''of'', ''off'', ''on'', ''once'',
      ''only'', ''or'', ''other'', ''our'', ''ours'', ''ourselves'', ''out'', ''over'', ''own'',
      ''same'', ''she'', ''should'', ''so'', ''some'', ''such'', ''than'', ''that'', ''the'',
      ''their'', ''theirs'', ''them'', ''themselves'', ''then'', ''there'', ''these'', ''they'',
      ''this'', ''those'', ''through'', ''to'', ''too'', ''under'', ''until'', ''up'', ''very'',
      ''was'', ''we'', ''were'', ''what'', ''when'', ''where'', ''which'', ''while'', ''who'',
      ''whom'', ''why'', ''will'', ''with'', ''you'', ''your'', ''yours'', ''yourself'',
      ''yourselves''}"

text \<open>The module's global instance \<^verbatim>\<open>text_summarizer = TextSummarizer()\<close>.\<close>

definition text_summarizer :: TextSummarizer where
  "text_summarizer = \<lparr>stopwords = default_stopwords\<rparr>"

definition tokenize_sentences :: "string \<Rightarrow> string list" where
  "tokenize_sentences text = filter (\<lambda>s. s \<noteq> []) (split_sentences [] (strip text))"

definition tokenize_words :: "string \<Rightarrow> string list" where
  "tokenize_words sentence = findall_words [] (lower sentence)"

text \<open>A \<^verbatim>\<open>Counter\<close>: a dictionary from words to counts, where a missing word counts 0.\<close>

type_synonym counter = "string \<rightharpoonup> int"

definition counter_get :: "counter \<Rightarrow> string \<Rightarrow> int" where
  "counter_get freq word = (case freq word of None \<Rightarrow> 0 | Some n \<Rightarrow> n)"

text \<open>\<^verbatim>\<open>freq[word] += 1\<close>.\<close>

definition counter_incr :: "counter \<Rightarrow> string \<Rightarrow> counter" where
  "counter_incr freq word = freq(word \<mapsto> counter_get freq word + 1)"

text \<open>The first pair of loops of \<^verbatim>\<open>summarize\<close>: the frequency of every word that is not a
  stopword, over all sentences.\<close>

definition count_sentence :: "TextSummarizer \<Rightarrow> counter \<Rightarrow> string \<Rightarrow> counter" where
  "count_sentence self freq sentence =
     fold (\<lambda>word f. if word \<notin> stopwords self then counter_incr f word else f)
       (tokenize_words sentence) freq"

definition word_frequencies :: "TextSummarizer \<Rightarrow> string list \<Rightarrow> counter" where
  "word_frequencies self sentences =
     fold (\<lambda>sentence f. count_sentence self f sentence) sentences Map.empty"

text \<open>The inner loop of the second pair: the score of one sentence.\<close>

definition score_sentence :: "TextSummarizer \<Rightarrow> counter \<Rightarrow> string \<Rightarrow> int" where
  "score_sentence self freq sentence =
     fold (\<lambda>word score. if word \<notin> stopwords self then score + counter_get freq word else score)
       (tokenize_words sentence) 0"

text \<open>The list \<^verbatim>\<open>scored_sentences\<close> of triples \<^verbatim>\<open>(score, idx, sentence)\<close>.\<close>

definition scored_sentences :: "TextSummarizer \<Rightarrow> string list \<Rightarrow> (int \<times> nat \<times> string) list" where
  "scored_sentences self sentences =
     (let freq = word_frequencies self sentences
      in map (\<lambda>(idx, sentence). (score_sentence self freq sentence, idx, sentence))
           (enumerate 0 sentences))"

text \<open>The slice \<^verbatim>\<open>xs[:n]\<close>: a negative \<open>n\<close> counts from the end.\<close>

definition slice_to :: "int \<Rightarrow> 'a list \<Rightarrow> 'a list" where
  "slice_to n xs = (if 0 \<le> n then take (nat n) xs else take (length xs - nat (- n)) xs)"

text \<open>\<^verbatim>\<open>sorted(xs, key=...)\<close> is a stable sort, as \<^const>\<open>sort_key\<close> is; the first key is the
  pair \<^verbatim>\<open>(-score, idx)\<close> in lexicographic order.\<close>

definition top_sentences :: "TextSummarizer \<Rightarrow> string list \<Rightarrow> int \<Rightarrow> (int \<times> nat \<times> string) list" where
  "top_sentences self sentences max_sentences =
     (let top = slice_to max_sentences
                  (sort_key (\<lambda>(score, idx, sentence). (- score, idx))
                     (scored_sentences self sentences))
      in sort_key (\<lambda>(score, idx, sentence). idx) top)"

definition summarize :: "TextSummarizer \<Rightarrow> string \<Rightarrow> int \<Rightarrow> string" where
  "summarize self text max_sentences =
     (let sentences = tokenize_sentences text
      in if int (length sentences) \<le> max_sentences then text
         else join_space
                (map (\<lambda>(score, idx, sentence). sentence)
                   (top_sentences self sentences max_sentences)))"

text \<open>The ranking the specification describes, in its own words, to compare the loops
  above with. The content words of a sentence are its word occurrences that are not
  stopwords; the global frequency of a word counts its occurrences among the content
  words of all sentences; the score of a sentence is the sum, over its content word
  occurrences, of the global frequency of the word; and sentence \<open>i\<close> ranks before
  sentence \<open>j\<close> when its score is higher, or the scores are equal and \<open>i\<close> comes
  first.\<close>

definition content_words :: "TextSummarizer \<Rightarrow> string \<Rightarrow> string list" where
  "content_words self sentence =
     filter (\<lambda>word. word \<notin> stopwords self) (tokenize_words sentence)"

definition global_frequency :: "TextSummarizer \<Rightarrow> string list \<Rightarrow> string \<Rightarrow> int" where
  "global_frequency self sentences word =
     int (count_list (concat (map (content_words self) sentences)) word)"

definition frequency_score :: "TextSummarizer \<Rightarrow> string list \<Rightarrow> string \<Rightarrow> int" where
  "frequency_score self sentences sentence =
     sum_list (map (global_frequency self sentences) (content_words self sentence))"

definition ranks_before :: "(nat \<Rightarrow> int) \<Rightarrow> nat \<Rightarrow> nat \<Rightarrow> bool" where
  "ranks_before score i j = (score j < score i \<or> (score i = score j \<and> i < j))"

text \<open>The condition under which the sentence pattern finds a separator at all:
  somewhere in the text a terminator is immediately followed by a whitespace
  character.\<close>

fun terminator_before_space :: "string \<Rightarrow> bool" where
  "terminator_before_space (c # d # cs) =
     ((is_terminator c \<and> isspace d) \<or> terminator_before_space (d # cs))"
| "terminator_before_space cs = False"

subsection \<open>MarkovChainGenerator\<close>

text \<open>The dictionary \<^verbatim>\<open>self.chain\<close> from bigrams to lists of next words. Python
  dictionaries keep their keys in insertion order and \<^verbatim>\<open>random.choice\<close> indexes the list
  of keys, so the table is an association list in insertion order.\<close>

type_synonym bigram = "string \<times> string"

type_synonym chain_table = "(bigram \<times> string list) list"

record MarkovChainGenerator =
  chain :: chain_table

text \<open>\<^verbatim>\<open>list(self.chain.keys())\<close>, \<^verbatim>\<open>key in self.chain\<close> and \<^verbatim>\<open>self.chain.get(key)\<close>: the three
  reads \<^verbatim>\<open>generate\<close> makes. None of them inserts a key.\<close>

definition chain_keys :: "chain_table \<Rightarrow> bigram list" where
  "chain_keys ch = map fst ch"

definition chain_contains :: "chain_table \<Rightarrow> bigram \<Rightarrow> bool" where
  "chain_contains ch key = (key \<in> set (chain_keys ch))"

definition chain_get :: "chain_table \<Rightarrow> bigram \<Rightarrow> string list option" where
  "chain_get ch key = map_of ch key"

text \<open>\<^verbatim>\<open>self.chain[key].append(word)\<close> on a \<^verbatim>\<open>defaultdict(list)\<close>: a missing key is inserted
  (at the end) with an empty list, then the word is appended to the key's list.\<close>

definition chain_append :: "chain_table \<Rightarrow> bigram \<Rightarrow> string \<Rightarrow> chain_table" where
  "chain_append ch key word =
     (if chain_contains ch key
      then map (\<lambda>(k, followers). if k = key then (k, followers @ [word]) else (k, followers)) ch
      else ch @ [(key, [word])])"

text \<open>The loop of \<^verbatim>\<open>_build_chain\<close> over \<^verbatim>\<open>range(len(words) - 2)\<close>; the range is empty when
  there are fewer than three words.\<close>

definition build_table :: "string list \<Rightarrow> chain_table" where
  "build_table words =
     fold (\<lambda>i ch. chain_append ch (words ! i, words ! (i + 1)) (words ! (i + 2)))
       [0 ..< length words - 2] []"

text \<open>The constructor: \<^verbatim>\<open>__init__\<close> followed by \<^verbatim>\<open>_build_chain\<close>. The corpus that
  \<^verbatim>\<open>_load_corpus\<close> returns is a literal of the source; it is a parameter here, and what
  is proved below holds for every corpus.\<close>

definition build_chain :: "string \<Rightarrow> MarkovChainGenerator" where
  "build_chain corpus = \<lparr>chain = build_table (findall_words [] (lower corpus))\<rparr>"

text \<open>The only exception the generator can raise: \<^verbatim>\<open>IndexError\<close>, from \<^verbatim>\<open>random.choice\<close> on
  an empty sequence or from an index outside a list.\<close>

datatype error = IndexError

text \<open>The state a call of \<^verbatim>\<open>generate\<close> runs in: the object \<^verbatim>\<open>self\<close> and the number of
  values drawn from the random source so far. The random source is a sequence \<open>rs\<close> of
  natural numbers; \<^verbatim>\<open>random.choice(seq)\<close> takes the next one to index \<open>seq\<close>, so every
  element can be chosen.\<close>

record run_state =
  model :: MarkovChainGenerator
  draws :: nat

definition random_choice :: "(nat \<Rightarrow> nat) \<Rightarrow> 'a list \<Rightarrow> run_state \<Rightarrow> error + ('a \<times> run_state)" where
  "random_choice rs seq st =
     (if seq = [] then Inl IndexError
      else Inr (seq ! (rs (draws st) mod length seq), st\<lparr>draws := Suc (draws st)\<rparr>))"

text \<open>The choice of the starting state (the \<^verbatim>\<open>if\<close>/\<^verbatim>\<open>elif\<close>/\<^verbatim>\<open>else\<close> on the number of
  prompt words).\<close>

definition random_seed :: "(nat \<Rightarrow> nat) \<Rightarrow> run_state \<Rightarrow> error + (string list \<times> run_state)" where
  "random_seed rs st =
     (case random_choice rs (chain_keys (chain (model st))) st of
        Inl e \<Rightarrow> Inl e
      | Inr (seed, st') \<Rightarrow> Inr ([fst seed, snd seed], st'))"

definition choose_start ::
  "(nat \<Rightarrow> nat) \<Rightarrow> string list \<Rightarrow> run_state \<Rightarrow> error + (string list \<times> run_state)" where
  "choose_start rs prompt_words st =
     (if 2 \<le> length prompt_words then
        (let seed = (prompt_words ! (length prompt_words - 2), last prompt_words)
         in if \<not> chain_contains (chain (model st)) seed then random_seed rs st
            else Inr (prompt_words, st))
      else if length prompt_words = 1 then
        (let first = last prompt_words;
             candidates = filter (\<lambda>key. fst key = first) (chain_keys (chain (model st)))
         in if candidates \<noteq> [] then
              (case random_choice rs candidates st of
                 Inl e \<Rightarrow> Inl e
               | Inr (seed, st') \<Rightarrow> Inr ([first, snd seed], st'))
            else random_seed rs st)
      else random_seed rs st)"

text \<open>One pass of the body of the \<^verbatim>\<open>while\<close> loop: the words to append. \<^verbatim>\<open>not followers\<close>
  holds for \<^verbatim>\<open>None\<close> and for the empty list.\<close>

definition extend_step ::
  "(nat \<Rightarrow> nat) \<Rightarrow> string list \<Rightarrow> run_state \<Rightarrow> error + (string list \<times> run_state)" where
  "extend_step rs generated_words st =
     (if length generated_words < 2 then Inl IndexError
      else
        (let key = (generated_words ! (length generated_words - 2), last generated_words);
             followers = chain_get (chain (model st)) key
         in case followers of
              None \<Rightarrow> random_seed rs st
            | Some [] \<Rightarrow> random_seed rs st
            | Some (w # ws) \<Rightarrow>
                (case random_choice rs (w # ws) st of
                   Inl e \<Rightarrow> Inl e
                 | Inr (next_word, st') \<Rightarrow> Inr ([next_word], st'))))"

text \<open>The \<^verbatim>\<open>while\<close> loop: every pass appends one word or, at a dead end, two.\<close>

function generate_loop ::
  "(nat \<Rightarrow> nat) \<Rightarrow> int \<Rightarrow> string list \<Rightarrow> run_state \<Rightarrow> error + (string list \<times> run_state)" where
  "generate_loop rs max_length generated_words st =
     (if int (length generated_words) < max_length then
        (case extend_step rs generated_words st of
           Inl e \<Rightarrow> Inl e
         | Inr (new, st') \<Rightarrow> generate_loop rs max_length (generated_words @ new) st')
      else Inr (generated_words, st))"
  by pat_completeness auto
termination
proof (relation "measure (\<lambda>(rs, max_length, generated_words, st).
                   nat (max_length - int (length generated_words)))")
  show "wf (measure (\<lambda>(rs, max_length, generated_words, st).
                   nat (max_length - int (length generated_words))))"
    by simp
next
  fix rs :: "nat \<Rightarrow> nat" and max_length :: int and generated_words :: "string list"
    and st :: run_state and x2 :: "string list \<times> run_state" and new st'
  assume "int (length generated_words) < max_length"
    and "extend_step rs generated_words st = Inr x2" and "(new, st') = x2"
  then have "extend_step rs generated_words st = Inr (new, st')"
    by simp
  then have "new \<noteq> []"
    by (auto simp: extend_step_def random_seed_def Let_def
        split: if_splits option.splits list.splits sum.splits prod.splits)
  then have "0 < length new" by simp
  with \<open>int (length generated_words) < max_length\<close>
  show "((rs, max_length, generated_words @ new, st'), (rs, max_length, generated_words, st))
        \<in> measure (\<lambda>(rs, max_length, generated_words, st).
                   nat (max_length - int (length generated_words)))"
    by simp
qed

declare generate_loop.simps [simp del]

text \<open>The words \<^verbatim>\<open>generate\<close> has when the loop ends, and the state then.\<close>

definition generate_words ::
  "MarkovChainGenerator \<Rightarrow> (nat \<Rightarrow> nat) \<Rightarrow> string \<Rightarrow> int \<Rightarrow> error + (string list \<times> run_state)" where
  "generate_words self rs prompt max_length =
     (let prompt_words = findall_words [] (lower prompt)
      in case choose_start rs prompt_words \<lparr>model = self, draws = 0\<rparr> of
           Inl e \<Rightarrow> Inl e
         | Inr (generated_words, st) \<Rightarrow> generate_loop rs max_length generated_words st)"

text \<open>The last two statements: \<^verbatim>\<open>generated_words[0]\<close> is capitalised when the prompt
  starts with an uppercase letter.\<close>

definition capitalise_first :: "string \<Rightarrow> string list \<Rightarrow> error + ustring list" where
  "capitalise_first prompt generated_words =
     (if prompt \<noteq> [] \<and> isupper (hd prompt) then
        (case generated_words of
           [] \<Rightarrow> Inl IndexError
         | w # ws \<Rightarrow> Inr (capitalize w # map str ws))
      else Inr (map str generated_words))"

definition generate_run ::
  "MarkovChainGenerator \<Rightarrow> (nat \<Rightarrow> nat) \<Rightarrow> string \<Rightarrow> int \<Rightarrow> error + (ustring \<times> run_state)" where
  "generate_run self rs prompt max_length =
     (case generate_words self rs prompt max_length of
        Inl e \<Rightarrow> Inl e
      | Inr (generated_words, st) \<Rightarrow>
          (case capitalise_first prompt generated_words of
             Inl e \<Rightarrow> Inl e
           | Inr ws \<Rightarrow> Inr (join_space_u ws, st)))"

text \<open>What the caller of \<^verbatim>\<open>generate\<close> gets: the string, or the exception.\<close>

definition generate ::
  "MarkovChainGenerator \<Rightarrow> (nat \<Rightarrow> nat) \<Rightarrow> string \<Rightarrow> int \<Rightarrow> error + ustring" where
  "generate self rs prompt max_length =
     (case generate_run self rs prompt max_length of
        Inl e \<Rightarrow> Inl e
      | Inr (text, st) \<Rightarrow> Inr text)"

text \<open>The words a table holds (in its keys and in its lists of followers), and the words
  that the join keeps apart: not empty and without whitespace.\<close>

definition table_words :: "chain_table \<Rightarrow> string set" where
  "table_words ch =
     (\<Union>((a, b), followers) \<in> set ch. insert a (insert b (set followers)))"

definition plain_word :: "string \<Rightarrow> bool" where
  "plain_word w = (w \<noteq> [] \<and> (\<forall>c \<in> set w. \<not> isspace c))"

definition plain_uword :: "ustring \<Rightarrow> bool" where
  "plain_uword w = (w \<noteq> [] \<and> (\<forall>c \<in> set w. \<not> isspace_u c))"

section \<open>Properties of the summarizer\<close>

text \<open>
  Claim C1. For every text whose sentence count (the number of non-empty pieces
  obtained by splitting the stripped text at a terminator followed by whitespace) is at
  most \<open>max_sentences\<close>, \<open>summarize\<close> returns the input text itself, character for
  character, and not the rejoined sentence list.
\<close>

theorem summarize_few_sentences_unchanged:
  assumes "int (length (tokenize_sentences text)) \<le> max_sentences"
  shows "summarize self text max_sentences = text"
  using assms by (simp add: summarize_def)

theorem summarize_few_sentences_unchanged_witness:
  "int (length (tokenize_sentences ''  Hello   there.   Bye now!  '')) \<le> 2
   \<and> summarize text_summarizer ''  Hello   there.   Bye now!  '' 2
       = ''  Hello   there.   Bye now!  ''"
proof -
  have h: "int (length (tokenize_sentences ''  Hello   there.   Bye now!  '')) \<le> 2"
    by code_simp
  show ?thesis
    using h summarize_few_sentences_unchanged [OF h, of text_summarizer] by simp
qed

subsection \<open>The ranking of sentences\<close>

lemma counter_get_incr:
  "counter_get (counter_incr freq x) w = counter_get freq w + (if x = w then 1 else 0)"
  by (simp add: counter_get_def counter_incr_def)

lemma count_sentence_get:
  "counter_get (count_sentence self freq sentence) w
     = counter_get freq w + int (count_list (content_words self sentence) w)"
proof -
  have "counter_get (fold (\<lambda>word f. if word \<notin> stopwords self then counter_incr f word else f)
                       ws freq) w
          = counter_get freq w
            + int (count_list (filter (\<lambda>word. word \<notin> stopwords self) ws) w)"
    for ws
    by (induction ws arbitrary: freq) (auto simp: counter_get_incr)
  then show ?thesis
    by (simp add: count_sentence_def content_words_def)
qed

lemma word_frequencies_get:
  "counter_get (word_frequencies self sentences) w = global_frequency self sentences w"
proof -
  have "counter_get (fold (\<lambda>sentence f. count_sentence self f sentence) ss freq) w
          = counter_get freq w + int (count_list (concat (map (content_words self) ss)) w)"
    for ss freq
    by (induction ss arbitrary: freq) (auto simp: count_sentence_get)
  from this [of sentences Map.empty] show ?thesis
    by (simp add: word_frequencies_def global_frequency_def counter_get_def)
qed

lemma score_sentence_sum:
  "score_sentence self freq sentence
     = sum_list (map (counter_get freq) (content_words self sentence))"
proof -
  have "fold (\<lambda>word score. if word \<notin> stopwords self then score + counter_get freq word
                            else score) ws a
          = a + sum_list (map (counter_get freq) (filter (\<lambda>word. word \<notin> stopwords self) ws))"
    for ws a
    by (induction ws arbitrary: a) auto
  then show ?thesis
    by (simp add: score_sentence_def content_words_def)
qed

lemma enumerate_nth: "enumerate 0 xs = map (\<lambda>i. (i, xs ! i)) [0 ..< length xs]"
  by (rule nth_equalityI) (simp_all add: nth_enumerate_eq)

lemma scored_sentences_eq:
  "scored_sentences self sentences
     = map (\<lambda>i. (frequency_score self sentences (sentences ! i), i, sentences ! i))
         [0 ..< length sentences]"
proof -
  have "score_sentence self (word_frequencies self sentences) s
          = frequency_score self sentences s" for s
    by (simp add: score_sentence_sum frequency_score_def word_frequencies_get [abs_def])
  then show ?thesis
    by (simp add: scored_sentences_def enumerate_nth)
qed

lemma sort_key_take_before_drop:
  fixes f :: "'a \<Rightarrow> 'b::linorder"
  assumes "distinct (map f xs)"
    and "x \<in> set (take n (sort_key f xs))" and "y \<in> set (drop n (sort_key f xs))"
  shows "f x < f y"
proof -
  let ?L = "sort_key f xs"
  have "mset (map f ?L) = mset (map f xs)" by simp
  then have d: "distinct (map f ?L)"
    using assms(1) mset_eq_imp_distinct_iff by blast
  have s: "sorted (map f ?L)" by (rule sorted_sort_key)
  have split: "map f ?L = map f (take n ?L) @ map f (drop n ?L)"
    by (metis append_take_drop_id map_append)
  have fx: "f x \<in> set (map f (take n ?L))" and fy: "f y \<in> set (map f (drop n ?L))"
    using assms(2,3) by auto
  from s split fx fy have "f x \<le> f y"
    by (metis sorted_append)
  moreover from d split fx fy have "f x \<noteq> f y"
    by (metis distinct_append disjoint_iff)
  ultimately show ?thesis by simp
qed

lemma slice_to_nonneg: "0 \<le> n \<Longrightarrow> slice_to n xs = take (nat n) xs"
  by (simp add: slice_to_def)

text \<open>
  Claim C2. For every text with more than \<open>max_sentences\<close> sentences (and
  \<open>max_sentences\<close> not negative, as a count is), \<open>summarize\<close> returns exactly
  \<open>max_sentences\<close> sentences of the input, joined with single spaces, in ascending
  original position. They are the top of the ranking: with each sentence scored as the
  sum, over its word occurrences that are not stopwords, of the word's frequency over
  all sentences (stopwords left out), every selected sentence has a higher score than
  every sentence left out, or the same score and an earlier position. The two loops of
  the code compute that score (\<open>scored_sentences_eq\<close>).
\<close>

theorem summarize_selects_top_sentences:
  fixes self :: TextSummarizer and "text" :: string and max_sentences :: int
  defines "sentences \<equiv> tokenize_sentences text"
  defines "score \<equiv> \<lambda>i. frequency_score self sentences (sentences ! i)"
  assumes nonneg: "0 \<le> max_sentences"
    and more: "max_sentences < int (length sentences)"
  shows "\<exists>selected.
           length selected = nat max_sentences
           \<and> sorted_wrt (<) selected
           \<and> set selected \<subseteq> {..< length sentences}
           \<and> (\<forall>i \<in> set selected. \<forall>j < length sentences.
                 j \<notin> set selected \<longrightarrow> ranks_before score i j)
           \<and> summarize self text max_sentences
               = join_space (map (\<lambda>i. sentences ! i) selected)"
proof -
  define n where "n = length sentences"
  define m where "m = nat max_sentences"
  define key1 :: "int \<times> nat \<times> string \<Rightarrow> int \<times> nat"
    where "key1 = (\<lambda>(score, idx, sentence). (- score, idx))"
  define key2 :: "int \<times> nat \<times> string \<Rightarrow> nat"
    where "key2 = (\<lambda>(score, idx, sentence). idx)"
  define scored where "scored = scored_sentences self sentences"
  define ranked where "ranked = sort_key key1 scored"
  define top where "top = take m ranked"
  define top_sorted where "top_sorted = sort_key key2 top"
  define selected where "selected = map key2 top_sorted"
  have m_lt: "m < n"
    using nonneg more by (simp add: m_def n_def)
  have scored_eq: "scored = map (\<lambda>i. (score i, i, sentences ! i)) [0 ..< n]"
    by (simp add: scored_def scored_sentences_eq score_def n_def)
  have shape: "t = (score (key2 t), key2 t, sentences ! key2 t) \<and> key2 t < n"
    if "t \<in> set scored" for t
    using that by (auto simp: scored_eq key2_def)
  have idx_scored: "map key2 scored = [0 ..< n]"
    by (simp add: scored_eq key2_def comp_def)
  have "map snd (map key1 scored) = [0 ..< n]"
    by (simp add: scored_eq key1_def comp_def)
  then have "distinct (map snd (map key1 scored))" by simp
  then have dist1: "distinct (map key1 scored)"
    using distinct_map [of snd "map key1 scored"] by blast
  have set_ranked: "set ranked = set scored"
    by (simp add: ranked_def)
  have set_top_sorted: "set top_sorted = set top"
    by (simp add: top_sorted_def)
  have top_sub: "set top \<subseteq> set scored"
    using set_take_subset [of m ranked] by (simp add: top_def set_ranked)
  \<comment> \<open>the code's result\<close>
  have "top_sentences self sentences max_sentences = top_sorted"
    using nonneg
    by (simp add: top_sentences_def slice_to_nonneg top_sorted_def top_def ranked_def
        scored_def key1_def key2_def m_def)
  moreover have "\<not> int (length (tokenize_sentences text)) \<le> max_sentences"
    using more by (simp add: sentences_def)
  ultimately have result: "summarize self text max_sentences
      = join_space (map (\<lambda>(score, idx, sentence). sentence) top_sorted)"
    by (simp add: summarize_def sentences_def)
  have "map (\<lambda>(score, idx, sentence). sentence) top_sorted
          = map (\<lambda>t. sentences ! key2 t) top_sorted"
  proof (rule map_cong [OF refl])
    fix t assume "t \<in> set top_sorted"
    then have "t \<in> set scored" using set_top_sorted top_sub by auto
    from shape [OF this] show "(case t of (score, idx, sentence) \<Rightarrow> sentence) = sentences ! key2 t"
      by (cases t) (auto simp: key2_def)
  qed
  then have text_eq: "summarize self text max_sentences
      = join_space (map (\<lambda>i. sentences ! i) selected)"
    by (simp only: result selected_def map_map comp_def)
  \<comment> \<open>how many, and in which order\<close>
  have len: "length selected = nat max_sentences"
    using m_lt by (simp add: selected_def top_sorted_def top_def ranked_def scored_eq m_def)
  have "mset (map key2 ranked) = mset (map key2 scored)"
    by (simp add: ranked_def)
  then have "distinct (map key2 ranked)"
    using idx_scored mset_eq_imp_distinct_iff [of "map key2 ranked" "map key2 scored"] by simp
  then have "distinct (map key2 top)"
    by (simp add: top_def take_map [symmetric])
  moreover have "mset (map key2 top_sorted) = mset (map key2 top)"
    by (simp add: top_sorted_def)
  ultimately have "distinct selected"
    using mset_eq_imp_distinct_iff [of "map key2 top_sorted" "map key2 top"]
    by (simp add: selected_def)
  moreover have "sorted selected"
    unfolding selected_def top_sorted_def by (rule sorted_sort_key)
  ultimately have ordered: "sorted_wrt (<) selected"
    by (simp add: strict_sorted_iff)
  have set_selected: "set selected = key2 ` set top"
    by (simp add: selected_def set_top_sorted)
  have bounded: "set selected \<subseteq> {..< length sentences}"
    using shape top_sub by (auto simp: set_selected n_def)
  \<comment> \<open>every selected sentence ranks before every sentence left out\<close>
  have best: "ranks_before score i j"
    if i: "i \<in> set selected" and j: "j < length sentences" and out: "j \<notin> set selected" for i j
  proof -
    from i obtain x where x: "x \<in> set top" and ix: "i = key2 x"
      by (auto simp: set_selected)
    let ?y = "(score j, j, sentences ! j)"
    have y_scored: "?y \<in> set scored"
      using j by (auto simp: scored_eq n_def)
    have "?y \<notin> set top"
    proof
      assume "?y \<in> set top"
      then have "key2 ?y \<in> set selected" unfolding set_selected by (rule imageI)
      with out show False by (simp add: key2_def)
    qed
    moreover have "set ranked = set top \<union> set (drop m ranked)"
      unfolding top_def by (metis append_take_drop_id set_append)
    ultimately have y_drop: "?y \<in> set (drop m ranked)"
      using y_scored set_ranked by auto
    have "key1 x < key1 ?y"
      using sort_key_take_before_drop [OF dist1, of x m ?y] x y_drop
      by (simp add: top_def ranked_def)
    moreover have "x = (score i, i, sentences ! i)"
      using shape [of x] x top_sub ix by auto
    ultimately have "(- score i, i) < (- score j, j)"
      by (simp add: key1_def)
    then show ?thesis
      by (auto simp: less_prod_def ranks_before_def)
  qed
  from len ordered bounded best text_eq show ?thesis
    by blast
qed

theorem summarize_selects_top_sentences_witness:
  "(0::int) \<le> 2
   \<and> 2 < int (length (tokenize_sentences
                         ''The cat sat. The cat ran fast. Dogs bark. A cat is a cat.''))
   \<and> scored_sentences text_summarizer
         (tokenize_sentences ''The cat sat. The cat ran fast. Dogs bark. A cat is a cat.'')
       = [(5, 0, ''The cat sat.''), (6, 1, ''The cat ran fast.''), (2, 2, ''Dogs bark.''),
          (8, 3, ''A cat is a cat.'')]
   \<and> summarize text_summarizer
         ''The cat sat. The cat ran fast. Dogs bark. A cat is a cat.'' 2
       = ''The cat ran fast. A cat is a cat.''
   \<and> (\<exists>selected. length selected = nat 2 \<and> sorted_wrt (<) selected
          \<and> summarize text_summarizer
                ''The cat sat. The cat ran fast. Dogs bark. A cat is a cat.'' 2
              = join_space
                  (map (\<lambda>i. tokenize_sentences
                               ''The cat sat. The cat ran fast. Dogs bark. A cat is a cat.'' ! i)
                     selected))"
proof -
  have h1: "(0::int) \<le> 2" by simp
  have h2: "2 < int (length (tokenize_sentences
                         ''The cat sat. The cat ran fast. Dogs bark. A cat is a cat.''))"
    by code_simp
  have sc: "scored_sentences text_summarizer
         (tokenize_sentences ''The cat sat. The cat ran fast. Dogs bark. A cat is a cat.'')
       = [(5, 0, ''The cat sat.''), (6, 1, ''The cat ran fast.''), (2, 2, ''Dogs bark.''),
          (8, 3, ''A cat is a cat.'')]"
    by code_simp
  have e: "summarize text_summarizer
         ''The cat sat. The cat ran fast. Dogs bark. A cat is a cat.'' 2
       = ''The cat ran fast. A cat is a cat.''"
    by code_simp
  from summarize_selects_top_sentences [OF h1 h2, of text_summarizer]
  obtain selected where "length selected = nat 2" "sorted_wrt (<) selected"
    "summarize text_summarizer
                ''The cat sat. The cat ran fast. Dogs bark. A cat is a cat.'' 2
              = join_space
                  (map (\<lambda>i. tokenize_sentences
                               ''The cat sat. The cat ran fast. Dogs bark. A cat is a cat.'' ! i)
                     selected)"
    by (elim exE conjE)
  then have "\<exists>selected. length selected = nat 2 \<and> sorted_wrt (<) selected
          \<and> summarize text_summarizer
                ''The cat sat. The cat ran fast. Dogs bark. A cat is a cat.'' 2
              = join_space
                  (map (\<lambda>i. tokenize_sentences
                               ''The cat sat. The cat ran fast. Dogs bark. A cat is a cat.'' ! i)
                     selected)"
    by (intro exI conjI)
  with h1 h2 sc e show ?thesis by (intro conjI)
qed

subsection \<open>The scenario of four one-word sentences\<close>

lemma summarize_abcd_scores:
  "scored_sentences text_summarizer (tokenize_sentences ''A. B. C. D.'')
     = [(0, 0, ''A.''), (1, 1, ''B.''), (1, 2, ''C.''), (1, 3, ''D.'')]"
  by code_simp

text \<open>
  Claim C6, as the code behaves. The scenario expects
  \<open>summarize("A. B. C. D.", 2) = "A. B."\<close>, from four equal scores. The word \<open>a\<close> is in
  the stopword list, so the first sentence scores 0 and each of the other three scores 1
  (\<open>summarize_abcd_scores\<close>): the two best sentences are the second and the third, in
  that order, and the result is \<open>"B. C."\<close>.
\<close>

theorem summarize_abcd_is_B_C:
  "summarize text_summarizer ''A. B. C. D.'' 2 = ''B. C.''"
  by code_simp

text \<open>Claim C6, as stated, fails: the result is not \<open>"A. B."\<close>.\<close>

theorem summarize_abcd_not_A_B:
  "summarize text_summarizer ''A. B. C. D.'' 2 \<noteq> ''A. B.''"
  by code_simp

subsection \<open>Texts without a sentence boundary\<close>

lemma terminator_before_space_iff:
  "terminator_before_space s \<longleftrightarrow>
     (\<exists>i. Suc i < length s \<and> is_terminator (s ! i) \<and> isspace (s ! Suc i))"
proof (induction s rule: terminator_before_space.induct)
  case (1 c d cs)
  show ?case
  proof
    assume "terminator_before_space (c # d # cs)"
    then consider "is_terminator c \<and> isspace d" | "terminator_before_space (d # cs)"
      by auto
    then show "\<exists>i. Suc i < length (c # d # cs) \<and> is_terminator ((c # d # cs) ! i)
                 \<and> isspace ((c # d # cs) ! Suc i)"
    proof cases
      case 1
      then show ?thesis by (intro exI [of _ 0]) simp
    next
      case 2
      with "1.IH" obtain i where "Suc i < length (d # cs)" "is_terminator ((d # cs) ! i)"
        "isspace ((d # cs) ! Suc i)" by blast
      then show ?thesis by (intro exI [of _ "Suc i"]) simp
    qed
  next
    assume "\<exists>i. Suc i < length (c # d # cs) \<and> is_terminator ((c # d # cs) ! i)
                 \<and> isspace ((c # d # cs) ! Suc i)"
    then obtain i where i: "Suc i < length (c # d # cs)" "is_terminator ((c # d # cs) ! i)"
      "isspace ((c # d # cs) ! Suc i)" by blast
    show "terminator_before_space (c # d # cs)"
    proof (cases i)
      case 0
      with i show ?thesis by simp
    next
      case (Suc j)
      with i have "Suc j < length (d # cs) \<and> is_terminator ((d # cs) ! j)
        \<and> isspace ((d # cs) ! Suc j)" by simp
      with "1.IH" show ?thesis by auto
    qed
  qed
qed simp_all

lemma terminator_before_space_Cons:
  "terminator_before_space cs \<Longrightarrow> terminator_before_space (c # cs)"
  by (cases cs) auto

lemma terminator_before_space_suffix:
  "terminator_before_space ys \<Longrightarrow> terminator_before_space (xs @ ys)"
  by (induction xs) (auto intro: terminator_before_space_Cons)

lemma terminator_before_space_prefix:
  "terminator_before_space xs \<Longrightarrow> terminator_before_space (xs @ ys)"
  by (induction xs rule: terminator_before_space.induct) auto

lemma strip_decompose: "\<exists>pre post. text = pre @ strip text @ post"
proof -
  let ?t = "dropWhile isspace text"
  have "text = takeWhile isspace text @ ?t" by simp
  moreover have "?t = strip text @ rev (takeWhile isspace (rev ?t))"
    unfolding strip_def by (metis rev_append rev_rev_ident takeWhile_dropWhile_id)
  ultimately show ?thesis by metis
qed

lemma strip_no_boundary:
  assumes "\<not> terminator_before_space text"
  shows "\<not> terminator_before_space (strip text)"
proof -
  obtain pre post where "text = pre @ strip text @ post"
    using strip_decompose by blast
  then show ?thesis
    using assms terminator_before_space_suffix terminator_before_space_prefix by metis
qed

lemma split_sentences_no_boundary:
  "\<not> terminator_before_space s \<Longrightarrow> split_sentences cur s = [rev cur @ s]"
proof (induction s arbitrary: cur)
  case Nil
  then show ?case by simp
next
  case (Cons c cs)
  have no: "\<not> (is_terminator c \<and> cs \<noteq> [] \<and> isspace (hd cs))"
    using Cons.prems by (cases cs) auto
  have "\<not> terminator_before_space cs"
    using Cons.prems terminator_before_space_Cons by blast
  then have "split_sentences (c # cur) cs = [rev (c # cur) @ cs]"
    by (rule Cons.IH)
  moreover have "split_sentences cur (c # cs) = split_sentences (c # cur) cs"
    using no by auto
  ultimately show ?case by simp
qed

lemma tokenize_sentences_no_boundary:
  assumes "\<not> terminator_before_space text"
  shows "tokenize_sentences text = (if strip text = [] then [] else [strip text])"
  using split_sentences_no_boundary [OF strip_no_boundary [OF assms], of "[]"]
  by (simp add: tokenize_sentences_def)

text \<open>
  Claim C10. For every \<open>max_sentences \<ge> 1\<close> and every text in which no terminator
  (\<open>.\<close>, \<open>!\<close> or \<open>?\<close>) is immediately followed by whitespace, the text splits into at
  most one sentence and \<open>summarize\<close> returns the text unchanged. (\<open>summarize\<close> is a total
  function: no path of it raises.)
\<close>

theorem summarize_without_boundary_unchanged:
  assumes "\<not> terminator_before_space text" and "1 \<le> max_sentences"
  shows "length (tokenize_sentences text) \<le> 1 \<and> summarize self text max_sentences = text"
proof -
  have len: "length (tokenize_sentences text) \<le> 1"
    by (simp add: tokenize_sentences_no_boundary [OF assms(1)])
  then have "int (length (tokenize_sentences text)) \<le> max_sentences"
    using assms(2) by linarith
  then have "summarize self text max_sentences = text"
    by (simp add: summarize_def)
  with len show ?thesis by simp
qed

theorem summarize_without_boundary_unchanged_witness:
  "\<not> terminator_before_space ''  no full stop here.but none before a space  ''
   \<and> (1::int) \<le> 1
   \<and> length (tokenize_sentences ''  no full stop here.but none before a space  '') \<le> 1
   \<and> summarize text_summarizer ''  no full stop here.but none before a space  '' 1
       = ''  no full stop here.but none before a space  ''"
proof -
  have h: "\<not> terminator_before_space ''  no full stop here.but none before a space  ''"
    by code_simp
  show ?thesis
    using h summarize_without_boundary_unchanged [OF h, of 1 text_summarizer] by simp
qed

section \<open>Properties of the generator\<close>

subsection \<open>The random choice, the start and the loop\<close>

lemma random_choice_nonempty:
  "seq \<noteq> [] \<Longrightarrow>
   random_choice rs seq st
     = Inr (seq ! (rs (draws st) mod length seq), st\<lparr>draws := Suc (draws st)\<rparr>)"
  by (simp add: random_choice_def)

lemma random_choice_model:
  "random_choice rs seq st = Inr (x, st') \<Longrightarrow> model st' = model st \<and> x \<in> set seq"
  by (auto simp: random_choice_def split: if_splits)

lemma random_seed_model:
  "random_seed rs st = Inr (new, st') \<Longrightarrow> model st' = model st \<and> length new = 2"
  by (auto simp: random_seed_def dest: random_choice_model split: sum.splits)

lemma random_seed_nonempty:
  assumes "chain (model st) \<noteq> []"
  shows "random_seed rs st
     = Inr (let key = chain_keys (chain (model st))
                        ! (rs (draws st) mod length (chain (model st)))
            in [fst key, snd key], st\<lparr>draws := Suc (draws st)\<rparr>)"
  using assms by (simp add: random_seed_def random_choice_nonempty chain_keys_def Let_def)

lemma extend_step_model:
  "extend_step rs ws st = Inr (new, st') \<Longrightarrow>
   model st' = model st \<and> (length new = 1 \<or> length new = 2)"
  by (auto simp: extend_step_def Let_def dest: random_seed_model random_choice_model
      split: if_splits option.splits list.splits sum.splits)

lemma extend_step_total:
  assumes "chain (model st) \<noteq> []" and "2 \<le> length ws"
  shows "\<exists>new st'. extend_step rs ws st = Inr (new, st')"
  using assms
  by (auto simp: extend_step_def Let_def random_seed_nonempty random_choice_nonempty
      split: option.splits list.splits)

lemma generate_loop_model:
  "generate_loop rs max_length ws st = Inr (ws', st') \<Longrightarrow>
   model st' = model st \<and> length ws \<le> length ws'"
proof (induction rs max_length ws st rule: generate_loop.induct)
  case (1 rs max_length ws st)
  show ?case
  proof (cases "int (length ws) < max_length")
    case False
    with "1.prems" show ?thesis by (simp add: generate_loop.simps)
  next
    case True
    with "1.prems" obtain new st1 where step: "extend_step rs ws st = Inr (new, st1)"
      and rest: "generate_loop rs max_length (ws @ new) st1 = Inr (ws', st')"
      by (auto simp: generate_loop.simps [of rs max_length ws st] split: sum.splits)
    from "1.IH" [OF True step refl rest]
    have "model st' = model st1 \<and> length (ws @ new) \<le> length ws'" .
    with extend_step_model [OF step] show ?thesis by simp
  qed
qed

lemma generate_loop_total:
  assumes "chain (model st) \<noteq> []" and "2 \<le> length ws"
  shows "\<exists>more st'. generate_loop rs max_length ws st = Inr (ws @ more, st')
           \<and> max_length \<le> int (length (ws @ more))
           \<and> int (length (ws @ more)) \<le> max (max_length + 1) (int (length ws))"
  using assms
proof (induction rs max_length ws st rule: generate_loop.induct)
  case (1 rs max_length ws st)
  show ?case
  proof (cases "int (length ws) < max_length")
    case False
    then have "generate_loop rs max_length ws st = Inr (ws @ [], st)"
      by (simp add: generate_loop.simps)
    with False show ?thesis by (intro exI [of _ "[]"] exI [of _ st]) simp
  next
    case True
    obtain new st1 where step: "extend_step rs ws st = Inr (new, st1)"
      using extend_step_total [OF "1.prems"] by blast
    note m = extend_step_model [OF step]
    have "chain (model st1) \<noteq> []" "2 \<le> length (ws @ new)"
      using m "1.prems" by auto
    from "1.IH" [OF True step refl this]
    obtain more st' where
      res: "generate_loop rs max_length (ws @ new) st1 = Inr ((ws @ new) @ more, st')"
      and lo: "max_length \<le> int (length ((ws @ new) @ more))"
      and hi: "int (length ((ws @ new) @ more)) \<le> max (max_length + 1) (int (length (ws @ new)))"
      by blast
    have "generate_loop rs max_length ws st = Inr (ws @ (new @ more), st')"
      using True step res by (simp add: generate_loop.simps [of rs max_length ws st])
    moreover have "int (length (ws @ new)) \<le> max_length + 1"
      using True m by auto
    ultimately show ?thesis
      using lo hi by (intro exI [of _ "new @ more"] exI [of _ st']) auto
  qed
qed

lemma choose_start_model:
  "choose_start rs prompt_words st = Inr (ws, st') \<Longrightarrow>
   model st' = model st \<and> 2 \<le> length ws"
  by (auto simp: choose_start_def Let_def dest: random_seed_model random_choice_model
      split: if_splits sum.splits)

lemma choose_start_total:
  assumes "chain (model st) \<noteq> []"
  shows "\<exists>ws st'. choose_start rs prompt_words st = Inr (ws, st')
           \<and> (length ws = 2 \<or> ws = prompt_words)"
  using assms
  by (auto simp: choose_start_def Let_def random_seed_nonempty random_choice_nonempty)

lemma generate_words_model:
  assumes "generate_words self rs prompt max_length = Inr (ws, st)"
  shows "model st = self \<and> 2 \<le> length ws"
proof -
  from assms obtain ws0 st0 where
    start: "choose_start rs (findall_words [] (lower prompt)) \<lparr>model = self, draws = 0\<rparr>
              = Inr (ws0, st0)"
    and loop: "generate_loop rs max_length ws0 st0 = Inr (ws, st)"
    by (auto simp: generate_words_def Let_def split: sum.splits)
  from choose_start_model [OF start] generate_loop_model [OF loop]
  show ?thesis by simp
qed

lemma generate_words_total:
  assumes "chain self \<noteq> []"
  shows "\<exists>ws st. generate_words self rs prompt max_length = Inr (ws, st)
           \<and> max_length \<le> int (length ws)
           \<and> int (length ws)
               \<le> max (max_length + 1) (max 2 (int (length (findall_words [] (lower prompt)))))"
proof -
  let ?pw = "findall_words [] (lower prompt)"
  let ?st = "\<lparr>model = self, draws = 0\<rparr>"
  from assms have ne: "chain (model ?st) \<noteq> []" by simp
  obtain ws0 st0 where start: "choose_start rs ?pw ?st = Inr (ws0, st0)"
    and shape: "length ws0 = 2 \<or> ws0 = ?pw"
    using choose_start_total [OF ne] by blast
  note m = choose_start_model [OF start]
  have "chain (model st0) \<noteq> []" "2 \<le> length ws0"
    using m assms by auto
  from generate_loop_total [OF this]
  obtain more st where loop: "generate_loop rs max_length ws0 st0 = Inr (ws0 @ more, st)"
    and lo: "max_length \<le> int (length (ws0 @ more))"
    and hi: "int (length (ws0 @ more)) \<le> max (max_length + 1) (int (length ws0))"
    by blast
  have "generate_words self rs prompt max_length = Inr (ws0 @ more, st)"
    using start loop by (simp add: generate_words_def)
  moreover have "int (length ws0) \<le> max 2 (int (length ?pw))"
    using shape by auto
  ultimately show ?thesis
    using lo hi by (intro exI [of _ "ws0 @ more"] exI [of _ st]) auto
qed

subsection \<open>Character classes\<close>

lemma code_less_256: "code c < 256"
proof -
  have "code c = code (char_of (code c))" by (simp add: code_def)
  also have "\<dots> = code c mod 256" by (simp add: code_def)
  finally show ?thesis by (metis mod_less_divisor zero_less_numeral)
qed

lemma code_char_of: "n < 256 \<Longrightarrow> code (char_of n) = n"
  by (simp add: code_def)

lemma char_of_code: "char_of (code c) = c"
  by (simp add: code_def)

lemma word_char_not_space: "is_word_char c \<Longrightarrow> \<not> isspace c"
  by (auto simp: is_word_char_def isspace_def Let_def)

lemma lower_char_code:
  "isupper c \<Longrightarrow> code (lower_char c) = code c + 32"
  by (auto simp: lower_char_def isupper_def Let_def code_char_of)

lemma lower_char_not_space: "\<not> isspace c \<Longrightarrow> \<not> isspace (lower_char c)"
proof (cases "isupper c")
  case True
  from lower_char_code [OF this] True show ?thesis
    by (auto simp: isspace_def isupper_def Let_def)
next
  case False
  assume "\<not> isspace c"
  with False show ?thesis by (simp add: lower_char_def)
qed

lemma lower_char_not_upper: "\<not> isupper (lower_char c)"
proof (cases "isupper c")
  case True
  from lower_char_code [OF this] True show ?thesis
    by (auto simp: isupper_def Let_def)
next
  case False
  then show ?thesis by (simp add: lower_char_def)
qed

lemma title_lower_char:
  assumes "isupper u"
  shows "title (lower_char u) = [Latin1 u]"
proof -
  have n: "code (lower_char u) = code u + 32"
    using assms by (rule lower_char_code)
  have "char_of (code u + 32 - 32) = u"
    by (simp add: char_of_code)
  with n assms show ?thesis
    by (auto simp: title_def isupper_def Let_def)
qed

lemma title_upper_or_same: "title c = [Latin1 c] \<or> isupper_u (hd (title c))"
proof -
  have "isupper (char_of (code c - 32))"
    if "(97 \<le> code c \<and> code c \<le> 122) \<or> (224 \<le> code c \<and> code c \<le> 246)
        \<or> (248 \<le> code c \<and> code c \<le> 254)"
  proof -
    have "code (char_of (code c - 32)) = code c - 32"
      using that by (intro code_char_of) auto
    with that show ?thesis by (auto simp: isupper_def Let_def)
  qed
  moreover have "isupper CHR ''S''"
    by (simp add: isupper_def code_def)
  ultimately show ?thesis
    by (auto simp: title_def Let_def)
qed

lemma title_plain: "\<not> isspace c \<Longrightarrow> plain_uword (title c)"
proof -
  assume ns: "\<not> isspace c"
  have "\<not> isspace (char_of (code c - 32))"
    if "(97 \<le> code c \<and> code c \<le> 122) \<or> (224 \<le> code c \<and> code c \<le> 246)
        \<or> (248 \<le> code c \<and> code c \<le> 254)"
  proof -
    have "code (char_of (code c - 32)) = code c - 32"
      using that by (intro code_char_of) auto
    with that show ?thesis by (auto simp: isspace_def Let_def)
  qed
  moreover have "\<not> isspace CHR ''S''" "\<not> isspace CHR ''s''"
    by (simp_all add: isspace_def code_def)
  ultimately show ?thesis
    using ns by (auto simp: title_def Let_def plain_uword_def)
qed

lemma join_space_u_append:
  "xs \<noteq> [] \<Longrightarrow> ys \<noteq> [] \<Longrightarrow>
   join_space_u (xs @ ys) = join_space_u xs @ Latin1 CHR '' '' # join_space_u ys"
proof (induction xs rule: join_space_u.induct)
  case 1
  then show ?case by simp
next
  case (2 x)
  then show ?case by (cases ys) auto
next
  case (3 x y ys')
  then show ?case by simp
qed

lemma join_space_u_prefix: "prefix (join_space_u xs) (join_space_u (xs @ ys))"
proof (cases "xs = [] \<or> ys = []")
  case True
  then show ?thesis by auto
next
  case False
  then show ?thesis by (simp add: join_space_u_append)
qed

lemma capitalise_first_append:
  assumes "xs \<noteq> []"
  shows "\<exists>cxs. capitalise_first prompt xs = Inr cxs
           \<and> capitalise_first prompt (xs @ ys) = Inr (cxs @ map str ys)"
  using assms by (cases xs) (auto simp: capitalise_first_def)

lemma generate_loop_extends:
  "generate_loop rs max_length ws st = Inr (ws', st') \<Longrightarrow> \<exists>more. ws' = ws @ more"
proof (induction rs max_length ws st rule: generate_loop.induct)
  case (1 rs max_length ws st)
  show ?case
  proof (cases "int (length ws) < max_length")
    case False
    with "1.prems" show ?thesis by (simp add: generate_loop.simps)
  next
    case True
    with "1.prems" obtain new st1 where step: "extend_step rs ws st = Inr (new, st1)"
      and rest: "generate_loop rs max_length (ws @ new) st1 = Inr (ws', st')"
      by (auto simp: generate_loop.simps [of rs max_length ws st] split: sum.splits)
    from "1.IH" [OF True step refl rest] show ?thesis by auto
  qed
qed

lemma generate_from_start:
  assumes start: "choose_start rs (findall_words [] (lower prompt)) \<lparr>model = self, draws = 0\<rparr>
                    = Inr (ws0, st0)"
    and ne: "chain self \<noteq> []"
  shows "\<exists>more st cws. generate_words self rs prompt max_length = Inr (ws0 @ more, st)
           \<and> capitalise_first prompt ws0 = Inr cws
           \<and> generate self rs prompt max_length = Inr (join_space_u (cws @ map str more))"
proof -
  note m = choose_start_model [OF start]
  have "chain (model st0) \<noteq> []" "2 \<le> length ws0"
    using m ne by auto
  from generate_loop_total [OF this]
  obtain more st where loop: "generate_loop rs max_length ws0 st0 = Inr (ws0 @ more, st)"
    by blast
  have gw: "generate_words self rs prompt max_length = Inr (ws0 @ more, st)"
    using start loop by (simp add: generate_words_def)
  from m have "ws0 \<noteq> []" by auto
  from capitalise_first_append [OF this]
  obtain cws where c1: "capitalise_first prompt ws0 = Inr cws"
    and c2: "capitalise_first prompt (ws0 @ more) = Inr (cws @ map str more)"
    by blast
  have "generate self rs prompt max_length = Inr (join_space_u (cws @ map str more))"
    using gw c2 by (simp add: generate_def generate_run_def)
  with gw c1 show ?thesis by blast
qed

subsection \<open>Where the output starts\<close>

text \<open>
  Claim C3. Let the prompt tokenize (lowercased, maximal runs of word characters) to at
  least two tokens, and let the seed be the bigram of its last two tokens. If the seed
  is a key of the table, the generated words are all the prompt tokens followed by the
  words the loop adds, and the returned string begins with the prompt tokens joined by
  single spaces, the first of them capitalised when the prompt starts with an uppercase
  letter. If the seed is not a key (and the table has a key to choose), the prompt
  tokens are dropped: the generated words are the two words of the key the random source
  selects among all keys of the table, followed by what the loop adds, and the returned
  string begins with these two words.
\<close>

theorem generate_starts_with_prompt_or_random_key:
  fixes self :: MarkovChainGenerator
  defines "keys \<equiv> chain_keys (chain self)"
  assumes pw: "prompt_words = findall_words [] (lower prompt)"
    and two: "2 \<le> length prompt_words"
    and seed: "seed = (prompt_words ! (length prompt_words - 2), last prompt_words)"
  shows "(seed \<in> set keys \<longrightarrow>
            (\<exists>more st cased text.
               generate_words self rs prompt max_length = Inr (prompt_words @ more, st)
               \<and> capitalise_first prompt prompt_words = Inr cased
               \<and> generate self rs prompt max_length = Inr text
               \<and> text = join_space_u (cased @ map str more)
               \<and> prefix (join_space_u cased) text))
       \<and> (seed \<notin> set keys \<and> keys \<noteq> [] \<longrightarrow>
            (\<exists>key more st cased text.
               key = keys ! (rs 0 mod length keys) \<and> key \<in> set keys
               \<and> generate_words self rs prompt max_length = Inr ([fst key, snd key] @ more, st)
               \<and> capitalise_first prompt [fst key, snd key] = Inr cased
               \<and> generate self rs prompt max_length = Inr text
               \<and> text = join_space_u (cased @ map str more)
               \<and> prefix (join_space_u cased) text))"
proof (intro conjI impI)
  let ?st = "\<lparr>model = self, draws = 0\<rparr>"
  assume "seed \<in> set keys"
  then have ne: "chain self \<noteq> []"
    by (auto simp: keys_def chain_keys_def)
  have "choose_start rs (findall_words [] (lower prompt)) ?st = Inr (prompt_words, ?st)"
    using \<open>seed \<in> set keys\<close> two pw seed
    by (simp add: choose_start_def chain_contains_def keys_def Let_def)
  from generate_from_start [OF this ne, of max_length]
  show "\<exists>more st cased text.
               generate_words self rs prompt max_length = Inr (prompt_words @ more, st)
               \<and> capitalise_first prompt prompt_words = Inr cased
               \<and> generate self rs prompt max_length = Inr text
               \<and> text = join_space_u (cased @ map str more)
               \<and> prefix (join_space_u cased) text"
    using join_space_u_prefix by blast
next
  let ?st = "\<lparr>model = self, draws = 0\<rparr>"
  let ?key = "keys ! (rs 0 mod length keys)"
  assume a: "seed \<notin> set keys \<and> keys \<noteq> []"
  then have ne: "chain self \<noteq> []"
    by (auto simp: keys_def chain_keys_def)
  have mem: "?key \<in> set keys"
    using a by simp
  have "choose_start rs (findall_words [] (lower prompt)) ?st
          = Inr ([fst ?key, snd ?key], ?st\<lparr>draws := Suc (draws ?st)\<rparr>)"
    using a two pw seed ne
    by (simp add: choose_start_def chain_contains_def keys_def Let_def random_seed_nonempty
        chain_keys_def)
  from generate_from_start [OF this ne, of max_length] mem
  show "\<exists>key more st cased text.
               key = keys ! (rs 0 mod length keys) \<and> key \<in> set keys
               \<and> generate_words self rs prompt max_length = Inr ([fst key, snd key] @ more, st)
               \<and> capitalise_first prompt [fst key, snd key] = Inr cased
               \<and> generate self rs prompt max_length = Inr text
               \<and> text = join_space_u (cased @ map str more)
               \<and> prefix (join_space_u cased) text"
    using join_space_u_prefix by blast
qed

theorem generate_starts_with_prompt_or_random_key_witness:
  "(let self = build_chain ''Alice was beginning to get very tired of sitting by her sister on the bank'';
        keys = chain_keys (chain self)
    in 2 \<le> length (findall_words [] (lower ''Alice was''))
       \<and> (''alice'', ''was'') \<in> set keys
       \<and> generate self (\<lambda>n. 0) ''Alice was'' 6 = Inr (str ''Alice was beginning to get very'')
       \<and> prefix (str ''Alice was'') (str ''Alice was beginning to get very'')
       \<and> 2 \<le> length (findall_words [] (lower ''The queen said''))
       \<and> (''queen'', ''said'') \<notin> set keys \<and> keys \<noteq> []
       \<and> keys ! ((\<lambda>n. 3) (0::nat) mod length keys) = (''to'', ''get'')
       \<and> generate self (\<lambda>n. 3) ''The queen said'' 6 = Inr (str ''To get very tired of sitting'')
       \<and> (\<exists>more. generate self (\<lambda>n. 0) ''Alice was'' 6
                     = Inr (join_space_u (map str [''Alice'', ''was''] @ map str more)))
       \<and> (\<exists>more. generate self (\<lambda>n. 3) ''The queen said'' 6
                     = Inr (join_space_u (map str [''To'', ''get''] @ map str more))))"
proof -
  let ?self = "build_chain ''Alice was beginning to get very tired of sitting by her sister on the bank''"
  let ?keys = "chain_keys (chain ?self)"
  have pw1: "findall_words [] (lower ''Alice was'') = [''alice'', ''was'']" by code_simp
  have pw2: "findall_words [] (lower ''The queen said'') = [''the'', ''queen'', ''said'']"
    by code_simp
  have keys: "?keys = [(''alice'', ''was''), (''was'', ''beginning''), (''beginning'', ''to''),
      (''to'', ''get''), (''get'', ''very''), (''very'', ''tired''), (''tired'', ''of''),
      (''of'', ''sitting''), (''sitting'', ''by''), (''by'', ''her''), (''her'', ''sister''),
      (''sister'', ''on''), (''on'', ''the'')]"
    by code_simp
  have e1: "generate ?self (\<lambda>n. 0) ''Alice was'' 6 = Inr (str ''Alice was beginning to get very'')"
    by code_simp
  have e2: "generate ?self (\<lambda>n. 3) ''The queen said'' 6 = Inr (str ''To get very tired of sitting'')"
    by code_simp
  have c1: "capitalise_first ''Alice was'' [''alice'', ''was''] = Inr (map str [''Alice'', ''was''])"
    by code_simp
  have c2: "capitalise_first ''The queen said'' [''to'', ''get''] = Inr (map str [''To'', ''get''])"
    by code_simp
  have m1: "(''alice'', ''was'') \<in> set ?keys" by (simp add: keys)
  have m2: "(''queen'', ''said'') \<notin> set ?keys \<and> ?keys \<noteq> []" by (simp add: keys)
  have k: "?keys ! ((\<lambda>n. 3) (0::nat) mod length ?keys) = (''to'', ''get'')"
    by (simp add: keys)
  have t1: "2 \<le> length [''alice'', ''was'']" by simp
  have t2: "2 \<le> length [''the'', ''queen'', ''said'']" by simp
  have s1: "(''alice'', ''was'') = ([''alice'', ''was''] ! (length [''alice'', ''was''] - 2),
      last [''alice'', ''was''])" by simp
  have s2: "(''queen'', ''said'') = ([''the'', ''queen'', ''said'']
      ! (length [''the'', ''queen'', ''said''] - 2), last [''the'', ''queen'', ''said''])" by simp
  from generate_starts_with_prompt_or_random_key [OF pw1 [symmetric] t1 s1, of ?self "\<lambda>n. 0" 6]
    m1 c1
  have r1: "\<exists>more. generate ?self (\<lambda>n. 0) ''Alice was'' 6
              = Inr (join_space_u (map str [''Alice'', ''was''] @ map str more))"
    by auto
  from generate_starts_with_prompt_or_random_key [OF pw2 [symmetric] t2 s2, of ?self "\<lambda>n. 3" 6]
    m2 c2 k
  have r2: "\<exists>more. generate ?self (\<lambda>n. 3) ''The queen said'' 6
              = Inr (join_space_u (map str [''To'', ''get''] @ map str more))"
    by auto
  have pf: "prefix (str ''Alice was'') (str ''Alice was beginning to get very'')"
    by (simp add: str_def)
  show ?thesis
    unfolding Let_def using pw1 pw2 m1 m2 k e1 e2 r1 r2 pf by simp
qed

subsection \<open>How many words are returned\<close>

lemma findall_words_chars:
  "\<forall>c \<in> set cur. is_word_char c \<Longrightarrow>
   \<forall>w \<in> set (findall_words cur s). w \<noteq> [] \<and> (\<forall>c \<in> set w. is_word_char c)"
proof (induction s arbitrary: cur)
  case Nil
  then show ?case by auto
next
  case (Cons a s)
  show ?case
  proof (cases "is_word_char a")
    case True
    with Cons.prems have "\<forall>c \<in> set (a # cur). is_word_char c" by simp
    from Cons.IH [OF this] True show ?thesis by simp
  next
    case False
    have "\<forall>c \<in> set ([] :: string). is_word_char c" by simp
    from Cons.IH [OF this] False Cons.prems show ?thesis by auto
  qed
qed

lemma findall_words_plain: "w \<in> set (findall_words [] s) \<Longrightarrow> plain_word w"
  using findall_words_chars [of "[]" s] word_char_not_space
  by (auto simp: plain_word_def)

lemma table_words_append:
  "table_words (chain_append ch (a, b) w) \<subseteq> insert a (insert b (insert w (table_words ch)))"
  by (auto simp: chain_append_def table_words_def split: if_splits)

lemma build_table_words: "table_words (build_table words) \<subseteq> set words"
proof -
  have step: "table_words (fold (\<lambda>i ch. chain_append ch (words ! i, words ! (i + 1))
                                   (words ! (i + 2))) is ch) \<subseteq> set words"
    if "\<forall>i \<in> set is. i + 2 < length words" and "table_words ch \<subseteq> set words"
    for "is" :: "nat list" and ch
    using that
  proof (induction "is" arbitrary: ch)
    case Nil
    then show ?case by simp
  next
    case (Cons i "is")
    from Cons.prems(1) have i: "i < length words" "i + 1 < length words" "i + 2 < length words"
      by auto
    have "table_words (chain_append ch (words ! i, words ! (i + 1)) (words ! (i + 2)))
            \<subseteq> set words"
      using table_words_append [of ch "words ! i" "words ! (i + 1)" "words ! (i + 2)"]
        Cons.prems(2) i nth_mem by blast
    with Cons.IH Cons.prems(1) show ?case by simp
  qed
  have "\<forall>i \<in> set [0 ..< length words - 2]. i + 2 < length words"
    by auto
  moreover have "table_words [] \<subseteq> set words"
    by (simp add: table_words_def)
  ultimately show ?thesis
    unfolding build_table_def by (rule step)
qed

lemma table_words_key:
  "key \<in> set (chain_keys ch) \<Longrightarrow> fst key \<in> table_words ch \<and> snd key \<in> table_words ch"
  by (force simp: chain_keys_def table_words_def)

lemma table_words_followers:
  "chain_get ch key = Some followers \<Longrightarrow> set followers \<subseteq> table_words ch"
  by (force simp: chain_get_def table_words_def dest: map_of_SomeD)

lemma random_seed_words:
  assumes "random_seed rs st = Inr (new, st')"
  shows "set new \<subseteq> table_words (chain (model st))"
proof -
  from assms obtain seed where "seed \<in> set (chain_keys (chain (model st)))"
    and "new = [fst seed, snd seed]"
    by (auto simp: random_seed_def dest: random_choice_model split: sum.splits)
  with table_words_key show ?thesis by auto
qed

lemma extend_step_words:
  assumes "extend_step rs ws st = Inr (new, st')"
  shows "set new \<subseteq> table_words (chain (model st))"
proof (cases "chain_get (chain (model st))
                (ws ! (length ws - 2), last ws)")
  case None
  with assms have "random_seed rs st = Inr (new, st')"
    by (simp add: extend_step_def Let_def split: if_splits)
  then show ?thesis by (rule random_seed_words)
next
  case (Some followers)
  show ?thesis
  proof (cases followers)
    case Nil
    with Some assms have "random_seed rs st = Inr (new, st')"
      by (simp add: extend_step_def Let_def split: if_splits)
    then show ?thesis by (rule random_seed_words)
  next
    case (Cons w fs)
    with Some assms obtain next_word where "next_word \<in> set followers" "new = [next_word]"
      by (auto simp: extend_step_def Let_def dest: random_choice_model
          split: if_splits sum.splits)
    with table_words_followers [OF Some] show ?thesis by auto
  qed
qed

lemma choose_start_words:
  assumes "choose_start rs prompt_words st = Inr (ws, st')"
  shows "set ws \<subseteq> set prompt_words \<union> table_words (chain (model st))"
proof (cases "2 \<le> length prompt_words")
  case True
  with assms have "ws = prompt_words \<or> random_seed rs st = Inr (ws, st')"
    by (simp add: choose_start_def Let_def split: if_splits)
  then show ?thesis
    using random_seed_words [of rs st ws st'] by blast
next
  case False
  let ?candidates = "filter (\<lambda>key. fst key = last prompt_words)
                       (chain_keys (chain (model st)))"
  show ?thesis
  proof (cases "length prompt_words = 1 \<and> ?candidates \<noteq> []")
    case True
    with assms obtain seed st1 where pick: "random_choice rs ?candidates st = Inr (seed, st1)"
      and ws: "ws = [last prompt_words, snd seed]"
      by (auto simp: choose_start_def Let_def split: sum.splits)
    from random_choice_model [OF pick] have "seed \<in> set (chain_keys (chain (model st)))"
      by simp
    from table_words_key [OF this] have "snd seed \<in> table_words (chain (model st))"
      by simp
    moreover from True have "last prompt_words \<in> set prompt_words"
      by (cases prompt_words) auto
    ultimately show ?thesis using ws by simp
  next
    case other: False
    with False assms have "random_seed rs st = Inr (ws, st')"
      by (simp add: choose_start_def Let_def split: if_splits)
    then show ?thesis
      using random_seed_words [of rs st ws st'] by blast
  qed
qed

lemma generate_loop_words:
  "generate_loop rs max_length ws st = Inr (ws', st') \<Longrightarrow>
   set ws' \<subseteq> set ws \<union> table_words (chain (model st))"
proof (induction rs max_length ws st rule: generate_loop.induct)
  case (1 rs max_length ws st)
  show ?case
  proof (cases "int (length ws) < max_length")
    case False
    with "1.prems" show ?thesis by (simp add: generate_loop.simps)
  next
    case True
    with "1.prems" obtain new st1 where step: "extend_step rs ws st = Inr (new, st1)"
      and rest: "generate_loop rs max_length (ws @ new) st1 = Inr (ws', st')"
      by (auto simp: generate_loop.simps [of rs max_length ws st] split: sum.splits)
    from "1.IH" [OF True step refl rest]
    have "set ws' \<subseteq> set (ws @ new) \<union> table_words (chain (model st1))" .
    with extend_step_model [OF step] extend_step_words [OF step] show ?thesis by auto
  qed
qed

lemma generate_words_words:
  assumes "generate_words self rs prompt max_length = Inr (ws, st)"
  shows "set ws \<subseteq> set (findall_words [] (lower prompt)) \<union> table_words (chain self)"
proof -
  from assms obtain ws0 st0 where
    start: "choose_start rs (findall_words [] (lower prompt)) \<lparr>model = self, draws = 0\<rparr>
              = Inr (ws0, st0)"
    and loop: "generate_loop rs max_length ws0 st0 = Inr (ws, st)"
    by (auto simp: generate_words_def Let_def split: sum.splits)
  from choose_start_words [OF start] choose_start_model [OF start] generate_loop_words [OF loop]
  show ?thesis by auto
qed

lemma built_generate_words_plain:
  assumes "generate_words (build_chain corpus) rs prompt max_length = Inr (ws, st)"
    and "w \<in> set ws"
  shows "plain_word w"
proof -
  from generate_words_words [OF assms(1)] assms(2)
  have "w \<in> set (findall_words [] (lower prompt))
        \<or> w \<in> table_words (build_table (findall_words [] (lower corpus)))"
    by (auto simp: build_chain_def)
  with build_table_words [of "findall_words [] (lower corpus)"]
  have "w \<in> set (findall_words [] (lower prompt)) \<or> w \<in> set (findall_words [] (lower corpus))"
    by auto
  then show ?thesis
    using findall_words_plain by blast
qed

lemma str_plain: "plain_word w \<Longrightarrow> plain_uword (str w)"
  by (auto simp: plain_word_def plain_uword_def str_def)

lemma capitalize_plain:
  assumes "plain_word w"
  shows "plain_uword (capitalize w)"
proof (cases w)
  case Nil
  with assms show ?thesis by (simp add: plain_word_def)
next
  case (Cons c cs)
  with assms have c: "\<not> isspace c" and cs: "\<forall>d \<in> set cs. \<not> isspace d"
    by (auto simp: plain_word_def)
  from title_plain [OF c] have "title c \<noteq> []" "\<forall>u \<in> set (title c). \<not> isspace_u u"
    by (auto simp: plain_uword_def)
  moreover from cs have "\<forall>u \<in> set (str (lower cs)). \<not> isspace_u u"
    by (auto simp: str_def lower_def lower_char_not_space)
  ultimately show ?thesis
    using Cons by (auto simp: plain_uword_def)
qed

lemma capitalise_first_plain:
  assumes "\<forall>w \<in> set ws. plain_word w" and "capitalise_first prompt ws = Inr ws'"
  shows "\<forall>w \<in> set ws'. plain_uword w"
  using assms
  by (auto simp: capitalise_first_def capitalize_plain str_plain
      split: if_splits list.splits)

lemma split_words_run:
  "\<forall>c \<in> set w. \<not> isspace_u c \<Longrightarrow>
   split_words cur (w @ rest) = split_words (rev w @ cur) rest"
  by (induction w arbitrary: cur) auto

lemma split_words_join:
  "\<forall>w \<in> set ws. plain_uword w \<Longrightarrow> split_words [] (join_space_u ws) = ws"
proof (induction ws rule: join_space_u.induct)
  case 1
  then show ?case by simp
next
  case (2 x)
  then have "split_words [] (x @ []) = split_words (rev x @ []) []"
    by (intro split_words_run) (simp add: plain_uword_def)
  with 2 show ?case by (simp add: plain_uword_def)
next
  case (3 x y ys)
  then have "split_words [] (x @ Latin1 CHR '' '' # join_space_u (y # ys))
               = split_words (rev x @ []) (Latin1 CHR '' '' # join_space_u (y # ys))"
    by (intro split_words_run) (simp add: plain_uword_def)
  moreover have "isspace CHR '' ''"
    by (simp add: isspace_def code_def)
  ultimately show ?case
    using 3 by (simp add: plain_uword_def)
qed

lemma word_count_join:
  "\<forall>w \<in> set ws. plain_uword w \<Longrightarrow> word_count (join_space_u ws) = length ws"
  by (simp add: word_count_def split_words_join)

lemma capitalise_first_nonempty:
  assumes "ws \<noteq> []"
  shows "capitalise_first prompt ws
     = Inr (if prompt \<noteq> [] \<and> isupper (hd prompt)
            then capitalize (hd ws) # map str (tl ws) else map str ws)"
  using assms by (cases ws) (auto simp: capitalise_first_def)

lemma capitalise_first_length:
  "capitalise_first prompt ws = Inr ws' \<Longrightarrow> length ws' = length ws"
  by (auto simp: capitalise_first_def split: if_splits list.splits)

text \<open>
  Claim C4. For every prompt, every random source and every \<open>max_length \<ge> 2\<close>, if the
  table, built from any corpus, is not empty, then \<open>generate\<close> returns a string (it does
  not raise) whose word count is at least \<open>max_length\<close> and at least 2. The word count
  is that of the returned string itself: the number of its maximal runs of characters
  that are not whitespace, which is the number of generated words because the words of
  a built table and of a prompt are not empty and hold no whitespace.
\<close>

theorem generate_reaches_max_length:
  assumes "chain (build_chain corpus) \<noteq> []" and "2 \<le> max_length"
  shows "\<exists>text. generate (build_chain corpus) rs prompt max_length = Inr text
           \<and> max_length \<le> int (word_count text) \<and> 2 \<le> word_count text"
proof -
  obtain gw st where
    gw: "generate_words (build_chain corpus) rs prompt max_length = Inr (gw, st)"
    and lo: "max_length \<le> int (length gw)"
    using generate_words_total [OF assms(1)] by blast
  from lo assms(2) have "gw \<noteq> []" by auto
  from capitalise_first_nonempty [OF this]
  obtain ws where ws: "capitalise_first prompt gw = Inr ws" by blast
  have result: "generate (build_chain corpus) rs prompt max_length = Inr (join_space_u ws)"
    using gw ws by (simp add: generate_def generate_run_def)
  have "\<forall>w \<in> set gw. plain_word w"
    using built_generate_words_plain [OF gw] by blast
  from capitalise_first_plain [OF this ws]
  have "word_count (join_space_u ws) = length ws"
    by (rule word_count_join)
  also have "\<dots> = length gw"
    using ws by (rule capitalise_first_length)
  finally have "max_length \<le> int (word_count (join_space_u ws))"
    using lo by simp
  with result assms(2) show ?thesis
    by (intro exI [of _ "join_space_u ws"]) auto
qed

theorem generate_reaches_max_length_witness:
  "chain (build_chain ''a b c a b d. b c a'') \<noteq> [] \<and> (2::int) \<le> 7
   \<and> generate (build_chain ''a b c a b d. b c a'') (\<lambda>n. n) ''Zebra'' 7
       = Inr (str ''A b d b c a b'')
   \<and> word_count (str ''A b d b c a b'') = 7
   \<and> (\<exists>text. generate (build_chain ''a b c a b d. b c a'') (\<lambda>n. n) ''Zebra'' 7 = Inr text
          \<and> (7::int) \<le> int (word_count text) \<and> 2 \<le> word_count text)"
proof -
  have h: "chain (build_chain ''a b c a b d. b c a'') \<noteq> []" by code_simp
  have e: "generate (build_chain ''a b c a b d. b c a'') (\<lambda>n. n) ''Zebra'' 7
             = Inr (str ''A b d b c a b'')" by code_simp
  have n: "word_count (str ''A b d b c a b'') = 7" by code_simp
  have two: "(2::int) \<le> 7" by simp
  from generate_reaches_max_length [OF h two, of "\<lambda>n. n" "''Zebra''"]
  have "\<exists>text. generate (build_chain ''a b c a b d. b c a'') (\<lambda>n. n) ''Zebra'' 7 = Inr text
          \<and> (7::int) \<le> int (word_count text) \<and> 2 \<le> word_count text" .
  with h two e n show ?thesis by (intro conjI)
qed

text \<open>
  Claim C5 fails on the code. The claim bounds the number of returned words by
  \<open>max_length + 1\<close>, and the docstring of \<open>generate\<close> promises at most \<open>max_length\<close>
  words, the prompt included. But a prompt whose last two tokens are a key of the table
  is copied whole, whatever its length, and the loop is not entered when it is already
  long enough. The built-in corpus starts with \<open>Alice was beginning to get very tired\<close>,
  so \<open>(to, get)\<close> is a key of its table: for \<open>max_length = 3\<close> the prompt of five
  words below is returned as it is. What holds is \<open>generate_words_total\<close>: the number
  of words is at most the larger of \<open>max_length + 1\<close> and the number of prompt tokens.
\<close>

theorem generate_long_prompt_exceeds_bound:
  assumes "chain_contains (chain self) (''to'', ''get'')"
  shows "generate self rs ''Alice was beginning to get'' 3
           = Inr (str ''Alice was beginning to get'')
     \<and> word_count (str ''Alice was beginning to get'') = 5"
proof -
  have pw: "findall_words [] (lower ''Alice was beginning to get'')
              = [''alice'', ''was'', ''beginning'', ''to'', ''get'']"
    by code_simp
  have n: "word_count (str ''Alice was beginning to get'') = 5"
    by code_simp
  have cap: "capitalise_first ''Alice was beginning to get''
               [''alice'', ''was'', ''beginning'', ''to'', ''get'']
             = Inr (map str [''Alice'', ''was'', ''beginning'', ''to'', ''get''])"
    by code_simp
  have joined: "join_space_u (map str [''Alice'', ''was'', ''beginning'', ''to'', ''get''])
                  = str ''Alice was beginning to get''"
    by code_simp
  have start: "choose_start rs [''alice'', ''was'', ''beginning'', ''to'', ''get'']
                 \<lparr>model = self, draws = 0\<rparr>
               = Inr ([''alice'', ''was'', ''beginning'', ''to'', ''get''],
                      \<lparr>model = self, draws = 0\<rparr>)"
    using assms by (simp add: choose_start_def Let_def)
  have loop: "generate_loop rs 3 [''alice'', ''was'', ''beginning'', ''to'', ''get'']
                \<lparr>model = self, draws = 0\<rparr>
              = Inr ([''alice'', ''was'', ''beginning'', ''to'', ''get''],
                     \<lparr>model = self, draws = 0\<rparr>)"
    by (simp add: generate_loop.simps)
  have "generate self rs ''Alice was beginning to get'' 3
          = Inr (join_space_u (map str [''Alice'', ''was'', ''beginning'', ''to'', ''get'']))"
    by (simp only: generate_def generate_run_def generate_words_def pw Let_def start loop cap
        sum.case prod.case)
  with joined n show ?thesis by simp
qed

theorem generate_long_prompt_exceeds_bound_witness:
  "chain_contains
     (chain (build_chain
        ''Alice was beginning to get very tired of sitting by her sister on the bank''))
     (''to'', ''get'')
   \<and> generate
       (build_chain ''Alice was beginning to get very tired of sitting by her sister on the bank'')
       (\<lambda>n. 0) ''Alice was beginning to get'' 3
     = Inr (str ''Alice was beginning to get'')"
proof -
  have h: "chain_contains
     (chain (build_chain
        ''Alice was beginning to get very tired of sitting by her sister on the bank''))
     (''to'', ''get'')"
    by code_simp
  from generate_long_prompt_exceeds_bound [OF h, of "\<lambda>n. 0"] h show ?thesis
    by (intro conjI) simp_all
qed

subsection \<open>Capitalisation\<close>

text \<open>
  Claim C9. For every prompt and every list of generated words the loop ends with, the
  list has a first word. If the prompt is not empty and its first character is an
  uppercase letter, the returned string is the join, with single spaces, of the words
  with the first word capitalised: its first character \<open>c\<close> in title case and its other
  characters lowercased. The title case is an uppercase letter unless \<open>c\<close> stays as it
  is, and it is the letter \<open>u\<close> itself when \<open>c\<close> is the lowercase form of an uppercase
  letter \<open>u\<close>; no lowercased character is an uppercase letter. Otherwise the returned
  string is the join of the words as they are.
\<close>

theorem generate_capitalises_first_word:
  assumes "generate_words self rs prompt max_length = Inr (generated_words, st)"
  shows "\<exists>w ws. generated_words = w # ws
     \<and> (prompt \<noteq> [] \<and> isupper (hd prompt) \<longrightarrow>
          generate self rs prompt max_length
            = Inr (join_space_u (capitalize w # map str ws))
          \<and> (\<forall>c cs. w = c # cs \<longrightarrow>
                capitalize w = title c @ str (lower cs)
                \<and> (title c = [Latin1 c] \<or> isupper_u (hd (title c)))
                \<and> (\<forall>u. isupper u \<and> c = lower_char u \<longrightarrow> title c = [Latin1 u])
                \<and> (\<forall>d \<in> set (lower cs). \<not> isupper d)))
     \<and> (\<not> (prompt \<noteq> [] \<and> isupper (hd prompt)) \<longrightarrow>
          generate self rs prompt max_length = Inr (join_space_u (map str generated_words)))"
proof -
  from generate_words_model [OF assms] have "generated_words \<noteq> []" by auto
  then obtain w ws where split: "generated_words = w # ws"
    by (cases generated_words) auto
  have upper: "generate self rs prompt max_length
                 = Inr (join_space_u (capitalize w # map str ws))"
    if "prompt \<noteq> [] \<and> isupper (hd prompt)"
    using that assms split
    by (simp add: generate_def generate_run_def capitalise_first_def)
  have other: "generate self rs prompt max_length = Inr (join_space_u (map str generated_words))"
    if "\<not> (prompt \<noteq> [] \<and> isupper (hd prompt))"
    using that assms
    by (auto simp: generate_def generate_run_def capitalise_first_def)
  have shape: "capitalize w = title c @ str (lower cs)
                \<and> (title c = [Latin1 c] \<or> isupper_u (hd (title c)))
                \<and> (\<forall>u. isupper u \<and> c = lower_char u \<longrightarrow> title c = [Latin1 u])
                \<and> (\<forall>d \<in> set (lower cs). \<not> isupper d)"
    if "w = c # cs" for c cs
  proof (intro conjI allI impI ballI)
    show "capitalize w = title c @ str (lower cs)"
      using that by simp
    show "title c = [Latin1 c] \<or> isupper_u (hd (title c))"
      by (rule title_upper_or_same)
    show "title c = [Latin1 u]" if "isupper u \<and> c = lower_char u" for u
      using that title_lower_char by simp
    show "\<not> isupper d" if "d \<in> set (lower cs)" for d
      using that lower_char_not_upper by (auto simp: lower_def)
  qed
  from split upper other shape show ?thesis
    by blast
qed

theorem generate_capitalises_first_word_witness:
  "generate_words (build_chain ''bob ate cod'') (\<lambda>n. n) ''BOB ate'' 3
     = Inr ([''bob'', ''ate'', ''cod''], \<lparr>model = build_chain ''bob ate cod'', draws = 1\<rparr>)
   \<and> ''BOB ate'' \<noteq> [] \<and> isupper (hd ''BOB ate'')
   \<and> title CHR ''b'' = [Latin1 CHR ''B'']
   \<and> generate (build_chain ''bob ate cod'') (\<lambda>n. n) ''BOB ate'' 3
       = Inr (str ''Bob ate cod'')"
proof -
  have gw: "generate_words (build_chain ''bob ate cod'') (\<lambda>n. n) ''BOB ate'' 3
     = Inr ([''bob'', ''ate'', ''cod''], \<lparr>model = build_chain ''bob ate cod'', draws = 1\<rparr>)"
    by code_simp
  have up: "''BOB ate'' \<noteq> [] \<and> isupper (hd ''BOB ate'')"
    by code_simp
  have t: "title CHR ''b'' = [Latin1 CHR ''B'']"
    by code_simp
  have joined: "join_space_u (capitalize ''bob'' # map str [''ate'', ''cod''])
                  = str ''Bob ate cod''"
    by code_simp
  from generate_capitalises_first_word [OF gw]
  obtain w ws where split: "[''bob'', ''ate'', ''cod''] = w # ws"
    and imp: "''BOB ate'' \<noteq> [] \<and> isupper (hd ''BOB ate'') \<longrightarrow>
          generate (build_chain ''bob ate cod'') (\<lambda>n. n) ''BOB ate'' 3
            = Inr (join_space_u (capitalize w # map str ws))
          \<and> (\<forall>c cs. w = c # cs \<longrightarrow>
                capitalize w = title c @ str (lower cs)
                \<and> (title c = [Latin1 c] \<or> isupper_u (hd (title c)))
                \<and> (\<forall>u. isupper u \<and> c = lower_char u \<longrightarrow> title c = [Latin1 u])
                \<and> (\<forall>d \<in> set (lower cs). \<not> isupper d))"
    by (elim exE conjE)
  from split have "w = ''bob''" "ws = [''ate'', ''cod'']" by simp_all
  with imp up have "generate (build_chain ''bob ate cod'') (\<lambda>n. n) ''BOB ate'' 3
            = Inr (join_space_u (capitalize ''bob'' # map str [''ate'', ''cod'']))"
    by blast
  with joined have "generate (build_chain ''bob ate cod'') (\<lambda>n. n) ''BOB ate'' 3
       = Inr (str ''Bob ate cod'')"
    by simp
  with gw up t show ?thesis by (intro conjI) simp_all
qed

text \<open>The three characters whose title case is not one character of the range, each as
  the first character of the first word of a corpus; the prompt \<open>X\<close> is not a word of
  the table, so the first key is chosen and capitalised.\<close>

lemma generate_capitalises_sharp_s:
  "generate (build_chain (CHR 0xDF # ''a b c'')) (\<lambda>n. 0) ''X'' 3 = Inr (str ''Ssa b c'')"
  by code_simp

lemma generate_capitalises_micro_sign:
  "generate (build_chain (CHR 0xB5 # ''a b c'')) (\<lambda>n. 0) ''X'' 3
     = Inr (Capital_Mu # str ''a b c'')"
  by code_simp

lemma generate_capitalises_y_diaeresis:
  "generate (build_chain (CHR 0xFF # ''a b c'')) (\<lambda>n. 0) ''X'' 3
     = Inr (Capital_Y_Diaeresis # str ''a b c'')"
  by code_simp

subsection \<open>The empty table\<close>

text \<open>
  Claim C7, as the code behaves. The code has no error of its own for a model that was
  not trained. With an empty table, every branch of the choice of the start calls
  \<open>random.choice\<close> on the empty list of keys, so for every prompt, every random source
  and every \<open>max_length\<close> the call raises the \<open>IndexError\<close> of that empty selection.
\<close>

theorem generate_empty_table_index_error:
  assumes "chain self = []"
  shows "generate self rs prompt max_length = Inl IndexError"
  using assms
  by (simp add: generate_def generate_run_def generate_words_def choose_start_def
      random_seed_def random_choice_def chain_keys_def chain_contains_def Let_def)

theorem generate_empty_table_index_error_witness:
  "chain \<lparr>chain = []\<rparr> = []
   \<and> generate \<lparr>chain = []\<rparr> (\<lambda>n. 0) ''Once upon a time'' 50 = Inl IndexError"
  using generate_empty_table_index_error [of "\<lparr>chain = []\<rparr>" "\<lambda>n. 0" "''Once upon a time''" 50]
  by simp

text \<open>Claim C7, as stated, fails: a corpus of two words gives an empty table, and there
  the exception \<open>generate\<close> raises is the one \<open>random.choice\<close> raises on the empty list
  of keys.\<close>

theorem generate_empty_table_crashes_on_choice:
  "random_choice (\<lambda>n. 0) (chain_keys (chain (build_chain ''too short''))) \<lparr>model = build_chain ''too short'', draws = 0\<rparr>
     = Inl IndexError
   \<and> generate (build_chain ''too short'') (\<lambda>n. 0) ''Once upon a time'' 50 = Inl IndexError"
  by code_simp

subsection \<open>The table after construction\<close>

lemma chain_append_keys:
  "chain_keys (chain_append ch key word)
     = (if chain_contains ch key then chain_keys ch else chain_keys ch @ [key])"
proof -
  have "map fst (map (\<lambda>(k, followers). if k = key then (k, followers @ [word])
                                          else (k, followers)) ch) = map fst ch"
    by (induction ch) auto
  then show ?thesis
    by (simp add: chain_append_def chain_keys_def)
qed

lemma chain_append_followers:
  assumes "\<forall>(k, followers) \<in> set ch. followers \<noteq> []"
  shows "\<forall>(k, followers) \<in> set (chain_append ch key word). followers \<noteq> []"
  using assms by (auto simp: chain_append_def split: if_splits)

lemma chain_append_distinct:
  assumes "distinct (chain_keys ch)"
  shows "distinct (chain_keys (chain_append ch key word))"
  using assms by (simp add: chain_append_keys chain_contains_def)

lemma build_table_invariant:
  "distinct (chain_keys (build_table words))
   \<and> (\<forall>(k, followers) \<in> set (build_table words). followers \<noteq> [])"
proof -
  have "distinct (chain_keys (fold (\<lambda>i ch. chain_append ch (words ! i, words ! (i + 1))
                                            (words ! (i + 2))) is ch))
        \<and> (\<forall>(k, followers) \<in> set (fold (\<lambda>i ch. chain_append ch (words ! i, words ! (i + 1))
                                            (words ! (i + 2))) is ch). followers \<noteq> [])"
    if "distinct (chain_keys ch)" and "\<forall>(k, followers) \<in> set ch. followers \<noteq> []"
    for "is" :: "nat list" and ch
    using that
  proof (induction "is" arbitrary: ch)
    case Nil
    then show ?case by simp
  next
    case (Cons i "is")
    have "distinct (chain_keys (chain_append ch (words ! i, words ! (i + 1)) (words ! (i + 2))))"
      using Cons.prems(1) by (rule chain_append_distinct)
    moreover have "\<forall>(k, followers) \<in> set (chain_append ch (words ! i, words ! (i + 1))
                                           (words ! (i + 2))). followers \<noteq> []"
      using Cons.prems(2) by (rule chain_append_followers)
    ultimately show ?case
      using Cons.IH by simp
  qed
  from this [of "[]"] show ?thesis
    by (simp add: build_table_def chain_keys_def)
qed

lemma chain_get_of_key:
  assumes "key \<in> set (chain_keys ch)"
  shows "\<exists>followers. chain_get ch key = Some followers \<and> (key, followers) \<in> set ch"
proof -
  from assms have "key \<in> fst ` set ch" by (simp add: chain_keys_def)
  then have "key \<in> dom (map_of ch)" by (simp add: dom_map_of_conv_image_fst)
  then obtain followers where "map_of ch key = Some followers"
    by blast
  then show ?thesis
    by (auto simp: chain_get_def dest: map_of_SomeD)
qed

lemma generate_run_model:
  assumes "generate_run self rs prompt max_length = Inr (result, st)"
  shows "model st = self"
proof -
  from assms obtain ws where "generate_words self rs prompt max_length = Inr (ws, st)"
    by (auto simp: generate_run_def split: sum.splits)
  from generate_words_model [OF this] show ?thesis by simp
qed

text \<open>
  Claim C8. After construction (from any corpus) every key of the table has a list of
  followers that is not empty, and no key occurs twice: a key is inserted only by the
  append of its first follower. A call of \<open>generate\<close> that returns leaves the object,
  and so the table, as it was: it only reads the table.
\<close>

theorem chain_followers_nonempty_and_generate_read_only:
  "(\<forall>key \<in> set (chain_keys (chain (build_chain corpus))).
      \<exists>followers. chain_get (chain (build_chain corpus)) key = Some followers
                   \<and> followers \<noteq> [])
   \<and> distinct (chain_keys (chain (build_chain corpus)))
   \<and> (\<forall>result st. generate_run self rs prompt max_length = Inr (result, st)
          \<longrightarrow> model st = self \<and> chain (model st) = chain self)"
proof (intro conjI ballI allI impI)
  fix key
  let ?ch = "chain (build_chain corpus)"
  assume "key \<in> set (chain_keys ?ch)"
  from chain_get_of_key [OF this]
  obtain followers where get: "chain_get ?ch key = Some followers"
    and mem: "(key, followers) \<in> set ?ch" by blast
  from mem build_table_invariant [of "findall_words [] (lower corpus)"]
  have "followers \<noteq> []" by (auto simp: build_chain_def)
  with get show "\<exists>followers. chain_get ?ch key = Some followers \<and> followers \<noteq> []"
    by blast
next
  show "distinct (chain_keys (chain (build_chain corpus)))"
    using build_table_invariant by (simp add: build_chain_def)
next
  fix result st
  assume "generate_run self rs prompt max_length = Inr (result, st)"
  from generate_run_model [OF this] show "model st = self" .
  then show "chain (model st) = chain self" by simp
qed

theorem chain_followers_nonempty_and_generate_read_only_witness:
  "(''a'', ''b'') \<in> set (chain_keys (chain (build_chain ''a b c a b d. b c a'')))
   \<and> (\<exists>followers. chain_get (chain (build_chain ''a b c a b d. b c a'')) (''a'', ''b'')
                        = Some followers \<and> followers \<noteq> [])
   \<and> chain_get (chain (build_chain ''a b c a b d. b c a'')) (''a'', ''b'')
        = Some [''c'', ''d'']
   \<and> (\<exists>st. generate_run (build_chain ''a b c a b d. b c a'') (\<lambda>n. n) ''B'' 7
                = Inr (str ''B c a b d b c'', st)
             \<and> model st = build_chain ''a b c a b d. b c a'')"
proof -
  let ?self = "build_chain ''a b c a b d. b c a''"
  note T = chain_followers_nonempty_and_generate_read_only
             [of "''a b c a b d. b c a''" ?self "\<lambda>n. n" "''B''" 7]
  have k: "(''a'', ''b'') \<in> set (chain_keys (chain ?self))"
    by code_simp
  have g: "chain_get (chain ?self) (''a'', ''b'') = Some [''c'', ''d'']"
    by code_simp
  from T have "\<forall>key \<in> set (chain_keys (chain ?self)).
      \<exists>followers. chain_get (chain ?self) key = Some followers \<and> followers \<noteq> []"
    by (rule conjunct1)
  from bspec [OF this k]
  have a: "\<exists>followers. chain_get (chain ?self) (''a'', ''b'') = Some followers
              \<and> followers \<noteq> []" .
  have "generate_run ?self (\<lambda>n. n) ''B'' 7
          = Inr (str ''B c a b d b c'', \<lparr>model = ?self, draws = 6\<rparr>)"
    by code_simp
  then obtain st where run: "generate_run ?self (\<lambda>n. n) ''B'' 7 = Inr (str ''B c a b d b c'', st)"
    by (rule that)
  from T have "\<forall>result st. generate_run ?self (\<lambda>n. n) ''B'' 7 = Inr (result, st)
          \<longrightarrow> model st = ?self \<and> chain (model st) = chain ?self"
    by (elim conjE)
  with run have "model st = ?self" by blast
  with run have b: "\<exists>st. generate_run ?self (\<lambda>n. n) ''B'' 7 = Inr (str ''B c a b d b c'', st)
             \<and> model st = ?self"
    by blast
  from k a g b show ?thesis by (intro conjI)
qed

end
